theory Spec2Isabelle
  imports Main "HOL-Library.Word"
begin

unbundle bit_operations_syntax

section \<open>The Sentinel firmware (sentinel.ino) as a state-passing model\<close>

text \<open>
  The sketch keeps its whole state in globals and function-local statics and talks to the
  board through the Arduino core. The model keeps the globals in one record, threads it
  through every function in the order the sketch runs them, and appends each output call
  (pin writes, tones, serial prints) to a log kept in the record.

  Inputs: one pass of \<open>loop()\<close> (and \<open>setup()\<close>) runs against one reading of the board:
  the millisecond clock, the level of the tilt pin, the level of the button pin and the
  conversion of the potentiometer channel. \<open>unsigned long\<close> is 32 bits wide on the AVR
  target, so timestamps are \<open>32 word\<close> and \<open>-\<close> and \<open>+\<close> wrap as in the sketch;
  \<open>uint8_t anger\<close> is an \<open>8 word\<close>; the ADC delivers 10-bit conversions.
\<close>

subsection \<open>Board readings and output calls\<close>

record hw =
  millis :: "32 word"
  pin_tilt :: bool
  pin_button :: bool
  pot :: "10 word"

abbreviation (input) LOW :: bool where "LOW \<equiv> False"
abbreviation (input) HIGH :: bool where "HIGH \<equiv> True"

datatype pin_mode = INPUT_PULLUP | OUTPUT

datatype effect =
    Serial_begin nat
  | PinMode nat pin_mode
  | DigitalWrite nat bool
  | Tone nat int
  | ToneFor nat int int
  | NoTone nat
  | Serial_print string
  | Serial_println string
  | Serial_print_num nat
  | Serial_println_num nat

text \<open>
  The log records each call with its argument; \<open>Serial_print_num\<close> and
  \<open>Serial_println_num\<close> are the integer overloads of \<open>Serial.print\<close> and
  \<open>Serial.println\<close>. \<open>serial_text\<close> is the byte stream the calls put on the line:
  integers in decimal, \<open>println\<close> followed by carriage return and line feed.
\<close>

abbreviation (input) CRLF :: string where "CRLF \<equiv> [CHR 0x0D, CHR 0x0A]"

fun printNumber :: "nat \<Rightarrow> string" where
  "printNumber n =
     (if n < 10 then [char_of (48 + n)]
      else printNumber (n div 10) @ [char_of (48 + n mod 10)])"

declare printNumber.simps [simp del]

fun serial_bytes :: "effect \<Rightarrow> string" where
  "serial_bytes (Serial_print s) = s"
| "serial_bytes (Serial_println s) = s @ CRLF"
| "serial_bytes (Serial_print_num n) = printNumber n"
| "serial_bytes (Serial_println_num n) = printNumber n @ CRLF"
| "serial_bytes _ = []"

definition serial_text :: "effect list \<Rightarrow> string" where
  "serial_text es = concat (map serial_bytes es)"

subsection \<open>Constants\<close>

abbreviation (input) TILT_INVERTED :: bool where "TILT_INVERTED \<equiv> True"

abbreviation (input) PIN_BUTTON :: nat where "PIN_BUTTON \<equiv> 13"
abbreviation (input) PIN_TILT :: nat where "PIN_TILT \<equiv> 12"
abbreviation (input) PIN_PIEZO :: nat where "PIN_PIEZO \<equiv> 6"
abbreviation (input) PIN_LED_R :: nat where "PIN_LED_R \<equiv> 2"
abbreviation (input) PIN_LED_Y :: nat where "PIN_LED_Y \<equiv> 4"
abbreviation (input) PIN_LED_G :: nat where "PIN_LED_G \<equiv> 3"

datatype State = IDLE | ALERT | ANGRY | COOLDOWN | REWARD | LOCKED

abbreviation (input) MAX_ANGER :: "8 word" where "MAX_ANGER \<equiv> 3"
abbreviation (input) MIN_STATE_MS :: "32 word" where "MIN_STATE_MS \<equiv> 200"
abbreviation (input) ALERT_TIMEOUT_MS :: "32 word" where "ALERT_TIMEOUT_MS \<equiv> 10000"
abbreviation (input) COOLDOWN_MS :: "32 word" where "COOLDOWN_MS \<equiv> 10000"
abbreviation (input) ANGRY_CALM_MS :: "32 word" where "ANGRY_CALM_MS \<equiv> 15000"
abbreviation (input) REWARD_MS :: "32 word" where "REWARD_MS \<equiv> 8000"
abbreviation (input) IDLE_REWARD_MIN_MS :: int where "IDLE_REWARD_MIN_MS \<equiv> 5000"
abbreviation (input) IDLE_REWARD_MAX_MS :: int where "IDLE_REWARD_MAX_MS \<equiv> 20000"
abbreviation (input) TILT_DB_IDLE_MS :: "32 word" where "TILT_DB_IDLE_MS \<equiv> 5"
abbreviation (input) TILT_DB_OTHER_MS :: "32 word" where "TILT_DB_OTHER_MS \<equiv> 14"
abbreviation (input) TILT_REARM_MS :: "32 word" where "TILT_REARM_MS \<equiv> 140"
abbreviation (input) ANGRY_BLINK_MS :: "32 word" where "ANGRY_BLINK_MS \<equiv> 200"
abbreviation (input) ANGRY_BEEP_MS :: "32 word" where "ANGRY_BEEP_MS \<equiv> 120"
abbreviation (input) ANGRY_BEEP_DUR_MS :: int where "ANGRY_BEEP_DUR_MS \<equiv> 35"
abbreviation (input) ANGRY_BEEP_HZ :: int where "ANGRY_BEEP_HZ \<equiv> 220"
abbreviation (input) LOCKED_TONE_HZ :: int where "LOCKED_TONE_HZ \<equiv> 140"

subsection \<open>Program state\<close>

record TiltEdge =
  lastRawAct :: bool
  changedAt :: "32 word"
  armed :: bool
  inactiveSince :: "32 word"

text \<open>
  \<open>btn_stable\<close>, \<open>btn_lastRaw\<close> and \<open>btn_changedAt\<close> are the statics \<open>stable\<close>,
  \<open>lastRaw\<close> and \<open>changedAt\<close> of \<open>buttonPressEvent()\<close>; \<open>holdAt\<close> is the static of
  the \<open>LOCKED\<close> case of \<open>loop()\<close>; \<open>out\<close> is the log of output calls since boot.
\<close>

record sentinel =
  state :: State
  anger :: "8 word"
  enteredAt :: "32 word"
  nextBlinkAt :: "32 word"
  nextBeepAt :: "32 word"
  angryRedOn :: bool
  rngState :: "32 word"
  tilt :: TiltEdge
  btn_stable :: bool
  btn_lastRaw :: bool
  btn_changedAt :: "32 word"
  holdAt :: "32 word"
  out :: "effect list"

definition emit :: "effect \<Rightarrow> sentinel \<Rightarrow> sentinel" where
  "emit e s = s\<lparr>out := out s @ [e]\<rparr>"

subsection \<open>Utilities\<close>

definition elapsed :: "hw \<Rightarrow> 32 word \<Rightarrow> 32 word \<Rightarrow> bool" where
  "elapsed h t0 ms = (millis h - t0 \<ge> ms)"

fun sName :: "State \<Rightarrow> string" where
  "sName IDLE = ''IDLE''"
| "sName ALERT = ''ALERT''"
| "sName ANGRY = ''ANGRY''"
| "sName COOLDOWN = ''COOLDOWN''"
| "sName REWARD = ''REWARD''"
| "sName LOCKED = ''LOCKED''"

definition leds :: "bool \<Rightarrow> bool \<Rightarrow> bool \<Rightarrow> sentinel \<Rightarrow> sentinel" where
  "leds r y g s =
     emit (DigitalWrite PIN_LED_G g) (emit (DigitalWrite PIN_LED_Y y) (emit (DigitalWrite PIN_LED_R r) s))"

definition showBaseLEDs :: "sentinel \<Rightarrow> sentinel" where
  "showBaseLEDs s =
     (case state s of
        IDLE \<Rightarrow> leds False False True s
      | ALERT \<Rightarrow> leds False True False s
      | COOLDOWN \<Rightarrow> leds False True False s
      | REWARD \<Rightarrow> leds False True True s
      | ANGRY \<Rightarrow> leds True False False s
      | LOCKED \<Rightarrow> leds True False False s)"

definition stopSound :: "sentinel \<Rightarrow> sentinel" where
  "stopSound s = emit (NoTone PIN_PIEZO) s"

subsection \<open>Serial output\<close>

definition printStateMsg :: "string \<Rightarrow> sentinel \<Rightarrow> sentinel" where
  "printStateMsg msg s =
     emit (Serial_println msg)
       (emit (Serial_print ''] '')
         (emit (Serial_print (sName (state s)))
           (emit (Serial_print ''['') s)))"

definition printStatLine :: "32 word \<Rightarrow> sentinel \<Rightarrow> sentinel" where
  "printStatLine patienceMs s =
     emit (Serial_println_num (unat patienceMs))
       (emit (Serial_print '' patienceMs='')
         (emit (Serial_print_num (unat (anger s)))
           (emit (Serial_print '' anger='')
             (emit (Serial_print (sName (state s)))
               (emit (Serial_print ''@STAT state='') s)))))"

subsection \<open>Random message source\<close>

definition xorshift32 :: "32 word \<Rightarrow> 32 word" where
  "xorshift32 x =
     (let x1 = x XOR push_bit 13 x;
          x2 = x1 XOR drop_bit 17 x1;
          x3 = x2 XOR push_bit 5 x2
      in x3)"

definition rng :: "sentinel \<Rightarrow> 32 word \<times> sentinel" where
  "rng s = (let s' = s\<lparr>rngState := xorshift32 (rngState s)\<rparr> in (rngState s', s'))"

definition pick3 :: "string \<Rightarrow> string \<Rightarrow> string \<Rightarrow> sentinel \<Rightarrow> string \<times> sentinel" where
  "pick3 a b c s =
     (let (r, s') = rng s
      in (if r mod 3 = 0 then a else if r mod 3 = 1 then b else c, s'))"

definition pick4 :: "string \<Rightarrow> string \<Rightarrow> string \<Rightarrow> string \<Rightarrow> sentinel \<Rightarrow> string \<times> sentinel" where
  "pick4 a b c d s =
     (let (r, s') = rng s
      in (if r mod 4 = 0 then a else if r mod 4 = 1 then b else if r mod 4 = 2 then c else d, s'))"

text \<open>The first phrase holds eight non-ASCII bytes in the source file, kept as bytes.\<close>

definition compliment :: "sentinel \<Rightarrow> string \<times> sentinel" where
  "compliment s =
     pick4
       (''Nice work '' @ [CHR 0xC3, CHR 0xA2, CHR 0xE2, CHR 0x82, CHR 0xAC, CHR 0xE2, CHR 0x80, CHR 0x9D]
          @ '' your patience is strong.'')
       ''You did great. Thanks for staying calm.''
       ''That was impressive self-control.''
       ''You're doing awesome. Keep it up.''
       s"

subsection \<open>Tilt edge detector\<close>

definition TiltEdge_init :: TiltEdge where
  "TiltEdge_init = \<lparr>lastRawAct = False, changedAt = 0, armed = True, inactiveSince = 0\<rparr>"

definition rawActive :: "hw \<Rightarrow> bool" where
  "rawActive h =
     (let raw = pin_tilt h;
          active = (raw = LOW)
      in if TILT_INVERTED then \<not> active else active)"

definition reset :: "hw \<Rightarrow> TiltEdge \<Rightarrow> TiltEdge" where
  "reset h d =
     d\<lparr>armed := False, inactiveSince := 0, lastRawAct := rawActive h, changedAt := millis h\<rparr>"

definition event :: "hw \<Rightarrow> State \<Rightarrow> TiltEdge \<Rightarrow> bool \<times> TiltEdge" where
  "event h currentState d =
     (let rawAct = rawActive h;
          d1 = (if rawAct \<noteq> lastRawAct d
                then d\<lparr>lastRawAct := rawAct, changedAt := millis h\<rparr> else d);
          needDb = (if currentState = IDLE then TILT_DB_IDLE_MS else TILT_DB_OTHER_MS)
      in if \<not> elapsed h (changedAt d1) needDb then (False, d1)
         else
           let d2 = (if \<not> rawAct
                     then (let d3 = (if inactiveSince d1 = 0
                                     then d1\<lparr>inactiveSince := millis h\<rparr> else d1)
                           in if \<not> armed d3 \<and> elapsed h (inactiveSince d3) TILT_REARM_MS
                              then d3\<lparr>armed := True\<rparr> else d3)
                     else d1\<lparr>inactiveSince := 0\<rparr>)
           in if armed d2 \<and> rawAct then (True, d2\<lparr>armed := False\<rparr>) else (False, d2))"

subsection \<open>Button\<close>

definition buttonPressEvent :: "hw \<Rightarrow> sentinel \<Rightarrow> bool \<times> sentinel" where
  "buttonPressEvent h s =
     (let raw = pin_button h;
          s1 = (if raw \<noteq> btn_lastRaw s
                then s\<lparr>btn_lastRaw := raw, btn_changedAt := millis h\<rparr> else s)
      in if elapsed h (btn_changedAt s1) 25 \<and> raw \<noteq> btn_stable s1
         then (raw = LOW, s1\<lparr>btn_stable := raw\<rparr>)
         else (False, s1))"

definition buttonHeld :: "hw \<Rightarrow> bool" where
  "buttonHeld h = (pin_button h = LOW)"

subsection \<open>State entry\<close>

definition enter :: "hw \<Rightarrow> State \<Rightarrow> string \<Rightarrow> int \<Rightarrow> int \<Rightarrow> 32 word \<Rightarrow> sentinel \<Rightarrow> sentinel" where
  "enter h next msg beepHz beepDur patienceMs s =
     (let s1 = (if next \<noteq> LOCKED then stopSound s else s);
          s2 = s1\<lparr>state := next, enteredAt := millis h\<rparr>;
          s3 = s2\<lparr>tilt := reset h (tilt s2)\<rparr>;
          s4 = s3\<lparr>angryRedOn := True, nextBlinkAt := millis h, nextBeepAt := millis h\<rparr>;
          s5 = showBaseLEDs s4;
          s6 = (if next = LOCKED
                then emit (Tone PIN_PIEZO LOCKED_TONE_HZ) (leds True False False s5)
                else if beepHz > 0 then emit (ToneFor PIN_PIEZO beepHz beepDur) s5
                else s5);
          s7 = printStateMsg msg s6
      in printStatLine patienceMs s7)"

subsection \<open>Effects\<close>

definition angryEffectsTick :: "hw \<Rightarrow> sentinel \<Rightarrow> sentinel" where
  "angryEffectsTick h s =
     (let s1 = (if millis h \<ge> nextBlinkAt s
                then (let sa = s\<lparr>nextBlinkAt := millis h + ANGRY_BLINK_MS\<rparr>;
                          sb = sa\<lparr>angryRedOn := \<not> angryRedOn sa\<rparr>
                      in emit (DigitalWrite PIN_LED_R (angryRedOn sb)) sb)
                else s)
      in if millis h \<ge> nextBeepAt s1
         then emit (ToneFor PIN_PIEZO ANGRY_BEEP_HZ ANGRY_BEEP_DUR_MS)
                (s1\<lparr>nextBeepAt := millis h + ANGRY_BEEP_MS\<rparr>)
         else s1)"

subsection \<open>Patience window\<close>

text \<open>
  Modelled from the spec: \<open>map()\<close> is a function of the Arduino core, not of this
  repository, so its body is not among the sources. The spec has the patience window
  "mapped linearly from the live potentiometer reading into
  [IDLE_REWARD_MIN_MS, IDLE_REWARD_MAX_MS]"; the integer form of that linear map is the
  one the Arduino reference documents for \<open>map(x, in_min, in_max, out_min, out_max)\<close>, on
  \<open>long\<close> with C's division, which truncates towards zero.
\<close>

definition c_div :: "int \<Rightarrow> int \<Rightarrow> int" where
  "c_div a b = (if (a < 0) = (b < 0) then \<bar>a\<bar> div \<bar>b\<bar> else - (\<bar>a\<bar> div \<bar>b\<bar>))"

definition arduino_map :: "int \<Rightarrow> int \<Rightarrow> int \<Rightarrow> int \<Rightarrow> int \<Rightarrow> int" where
  "arduino_map x in_min in_max out_min out_max =
     c_div ((x - in_min) * (out_max - out_min)) (in_max - in_min) + out_min"

definition analogRead :: "hw \<Rightarrow> int" where
  "analogRead h = uint (pot h)"

definition patience :: "hw \<Rightarrow> 32 word" where
  "patience h = word_of_int (arduino_map (analogRead h) 0 1023 IDLE_REWARD_MIN_MS IDLE_REWARD_MAX_MS)"

subsection \<open>Setup\<close>

definition globals_init :: sentinel where
  "globals_init =
     \<lparr>state = IDLE, anger = 0, enteredAt = 0, nextBlinkAt = 0, nextBeepAt = 0,
      angryRedOn = True, rngState = 0xA5A5A5A5, tilt = TiltEdge_init,
      btn_stable = HIGH, btn_lastRaw = HIGH, btn_changedAt = 0, holdAt = 0, out = []\<rparr>"

text \<open>
  \<open>setup_ino\<close> is the sketch's \<open>setup()\<close>. It converts the potentiometer channel
  twice; the second conversion is the argument \<open>pot2\<close>, the first the reading of the
  board snapshot.
\<close>

definition seed :: "10 word \<Rightarrow> 10 word \<Rightarrow> 32 word \<Rightarrow> 32 word" where
  "seed a b r = (let r1 = r XOR push_bit 16 (ucast a) in r1 XOR ucast b)"

definition setup_ino :: "hw \<Rightarrow> 10 word \<Rightarrow> sentinel" where
  "setup_ino h pot2 =
     (let s0 = emit (Serial_begin 9600) globals_init;
          s1 = emit (PinMode PIN_TILT INPUT_PULLUP) (emit (PinMode PIN_BUTTON INPUT_PULLUP) s0);
          s2 = emit (PinMode PIN_LED_G OUTPUT) (emit (PinMode PIN_LED_Y OUTPUT)
                 (emit (PinMode PIN_LED_R OUTPUT) (emit (PinMode PIN_PIEZO OUTPUT) s1)));
          s3 = leds False False False s2;
          s4 = s3\<lparr>rngState := seed (pot h) pot2 (rngState s3)\<rparr>;
          s5 = s4\<lparr>anger := 0\<rparr>
      in enter h IDLE ''stillness acknowledged.'' 880 70 0 s5)"

subsection \<open>Loop\<close>

text \<open>
  The body of \<open>loop()\<close> is written in pieces. \<open>inc_anger\<close> is the statement
  \<open>if (anger < MAX_ANGER) anger++;\<close>, which three arms share. \<open>case_IDLE\<close> to
  \<open>case_LOCKED\<close> are the arms of the \<open>switch\<close>, their checks in source order; an arm
  that ends in \<open>break\<close> after \<open>enter\<close> skips its later checks, which therefore sit in
  the else branch. The message argument of \<open>enter\<close> is evaluated before the call, so the
  generator steps before the entry action runs.
\<close>

definition inc_anger :: "sentinel \<Rightarrow> sentinel" where
  "inc_anger s = (if anger s < MAX_ANGER then s\<lparr>anger := anger s + 1\<rparr> else s)"

definition case_IDLE :: "hw \<Rightarrow> 32 word \<Rightarrow> bool \<Rightarrow> sentinel \<Rightarrow> sentinel" where
  "case_IDLE h patienceMs t s =
     (if t then (let (m, s1) = pick3 ''careful.'' ''i felt that.'' ''easy.'' s
                 in enter h ALERT m 988 60 patienceMs s1)
      else if elapsed h (enteredAt s) patienceMs
           then (let (m, s1) = compliment s in enter h REWARD m 1047 60 patienceMs s1)
      else s)"

definition case_ALERT :: "hw \<Rightarrow> 32 word \<Rightarrow> bool \<Rightarrow> bool \<Rightarrow> sentinel \<Rightarrow> sentinel" where
  "case_ALERT h patienceMs t p s =
     (if t then (let s1 = inc_anger s;
                     (m, s2) = pick3 ''wrong move.'' ''again? unfortunate.'' ''you insist.'' s1
                 in enter h ANGRY m 220 90 patienceMs s2)
      else if p then (let (m, s1) = pick3 ''noted.'' ''acknowledged.'' ''good.'' s
                      in enter h IDLE m 880 50 patienceMs s1)
      else if elapsed h (enteredAt s) ALERT_TIMEOUT_MS
           then (let (m, s1) = pick3 ''stand down.'' ''resetting.'' ''idle.'' s
                 in enter h IDLE m 880 50 patienceMs s1)
      else s)"

definition case_ANGRY :: "hw \<Rightarrow> 32 word \<Rightarrow> bool \<Rightarrow> sentinel \<Rightarrow> sentinel" where
  "case_ANGRY h patienceMs t s =
     (let s1 = (if t then (let sa = inc_anger s;
                               (m, sb) = pick3 ''stop.'' ''enough.'' ''do not.'' sa
                           in printStateMsg m sb)
                else s)
      in if anger s1 \<ge> MAX_ANGER \<and> elapsed h (enteredAt s1) 1200
         then (let (m, s2) = pick3 ''access revoked.'' ''you are done.'' ''locked.'' s1
               in enter h LOCKED m 0 0 patienceMs s2)
         else if elapsed h (enteredAt s1) ANGRY_CALM_MS
              then (let s2 = (if anger s1 \<noteq> 0 then s1\<lparr>anger := anger s1 - 1\<rparr> else s1);
                        (m, s3) = pick3 ''cool down.'' ''steady.'' ''watch yourself.'' s2
                    in enter h COOLDOWN m 660 70 patienceMs s3)
         else s1)"

definition case_COOLDOWN :: "hw \<Rightarrow> 32 word \<Rightarrow> bool \<Rightarrow> sentinel \<Rightarrow> sentinel" where
  "case_COOLDOWN h patienceMs t s =
     (if t then (let s1 = inc_anger s;
                     (m, s2) = pick3 ''no.'' ''not again.'' ''wrong.'' s1
                 in enter h ANGRY m 220 90 patienceMs s2)
      else if elapsed h (enteredAt s) COOLDOWN_MS
           then (let (m, s1) = pick3 ''returning.'' ''idle.'' ''reset.'' s
                 in enter h IDLE m 880 50 patienceMs s1)
      else s)"

definition case_REWARD :: "hw \<Rightarrow> 32 word \<Rightarrow> bool \<Rightarrow> sentinel \<Rightarrow> sentinel" where
  "case_REWARD h patienceMs t s =
     (if t then (let (m, s1) = pick3 ''easy.'' ''careful.'' ''i noticed.'' s
                 in enter h ALERT m 988 60 patienceMs s1)
      else if elapsed h (enteredAt s) REWARD_MS
           then (let (m, s1) = pick3 ''cycle complete.'' ''done.'' ''idle.'' s
                 in enter h IDLE m 880 50 patienceMs s1)
      else s)"

definition case_LOCKED :: "hw \<Rightarrow> 32 word \<Rightarrow> sentinel \<Rightarrow> sentinel" where
  "case_LOCKED h patienceMs s =
     (if buttonHeld h
      then (let s1 = (if holdAt s = 0 then s\<lparr>holdAt := millis h\<rparr> else s)
            in if elapsed h (holdAt s1) 2000
               then (let s2 = s1\<lparr>holdAt := 0\<rparr>;
                         s3 = s2\<lparr>anger := 0\<rparr>;
                         (m, s4) = pick3 ''mercy granted.'' ''one more chance.'' ''reset.'' s3
                     in enter h IDLE m 988 70 patienceMs s4)
               else s1)
      else s\<lparr>holdAt := 0\<rparr>)"

text \<open>
  \<open>poll\<close> is the part of \<open>loop()\<close> between the dwell guard and the \<open>switch\<close>: it
  returns the tilt event \<open>t\<close>, the button-press event \<open>p\<close> and the state after both
  detectors and the per-state effects have run.
\<close>

definition poll :: "hw \<Rightarrow> sentinel \<Rightarrow> bool \<times> bool \<times> sentinel" where
  "poll h s =
     (let (t, d) = event h (state s) (tilt s);
          s1 = s\<lparr>tilt := d\<rparr>;
          (p, s2) = buttonPressEvent h s1;
          s3 = (if state s2 = ANGRY then angryEffectsTick h s2 else s2);
          s4 = (if state s3 = LOCKED then leds True False False s3 else s3)
      in (t, p, s4))"

definition loop :: "hw \<Rightarrow> sentinel \<Rightarrow> sentinel" where
  "loop h s =
     (if \<not> elapsed h (enteredAt s) MIN_STATE_MS then s
      else
        let patienceMs = patience h;
            (t, p, s1) = poll h s
        in case state s1 of
             IDLE \<Rightarrow> case_IDLE h patienceMs t s1
           | ALERT \<Rightarrow> case_ALERT h patienceMs t p s1
           | ANGRY \<Rightarrow> case_ANGRY h patienceMs t s1
           | COOLDOWN \<Rightarrow> case_COOLDOWN h patienceMs t s1
           | REWARD \<Rightarrow> case_REWARD h patienceMs t s1
           | LOCKED \<Rightarrow> case_LOCKED h patienceMs s1)"

text \<open>The states the program can be in: after \<open>setup()\<close>, and after any pass of \<open>loop()\<close>.\<close>

inductive reachable :: "sentinel \<Rightarrow> bool" where
  boot: "reachable (setup_ino h pot2)"
| pass: "reachable s \<Longrightarrow> reachable (loop h s)"

subsection \<open>Running the program\<close>

text \<open>\<open>run\<close> makes one pass of \<open>loop()\<close> per board reading, in order.\<close>

fun run :: "sentinel \<Rightarrow> hw list \<Rightarrow> sentinel" where
  "run s [] = s"
| "run s (h # hs) = run (loop h s) hs"

definition board :: "32 word \<Rightarrow> bool \<Rightarrow> bool \<Rightarrow> hw" where
  "board t tp bp = \<lparr>millis = t, pin_tilt = tp, pin_button = bp, pot = 512\<rparr>"

section \<open>Descriptions of the output\<close>

text \<open>
  What the entry action and the telemetry functions append to the log, written as lists;
  the lemmas below prove that the functions of the sketch produce exactly these.
\<close>

definition base_leds :: "State \<Rightarrow> effect list" where
  "base_leds st =
     (case st of
        IDLE \<Rightarrow> [DigitalWrite 2 False, DigitalWrite 4 False, DigitalWrite 3 True]
      | ALERT \<Rightarrow> [DigitalWrite 2 False, DigitalWrite 4 True, DigitalWrite 3 False]
      | COOLDOWN \<Rightarrow> [DigitalWrite 2 False, DigitalWrite 4 True, DigitalWrite 3 False]
      | REWARD \<Rightarrow> [DigitalWrite 2 False, DigitalWrite 4 True, DigitalWrite 3 True]
      | ANGRY \<Rightarrow> [DigitalWrite 2 True, DigitalWrite 4 False, DigitalWrite 3 False]
      | LOCKED \<Rightarrow> [DigitalWrite 2 True, DigitalWrite 4 False, DigitalWrite 3 False])"

definition state_line :: "State \<Rightarrow> string \<Rightarrow> effect list" where
  "state_line st msg =
     [Serial_print ''['', Serial_print (sName st), Serial_print ''] '', Serial_println msg]"

definition stat_line :: "State \<Rightarrow> 8 word \<Rightarrow> 32 word \<Rightarrow> effect list" where
  "stat_line st a p =
     [Serial_print ''@STAT state='', Serial_print (sName st), Serial_print '' anger='',
      Serial_print_num (unat a), Serial_print '' patienceMs='', Serial_println_num (unat p)]"

definition entry_signals :: "State \<Rightarrow> int \<Rightarrow> int \<Rightarrow> effect list" where
  "entry_signals next beepHz beepDur =
     (if next \<noteq> LOCKED then [NoTone 6] else []) @ base_leds next @
     (if next = LOCKED
      then [DigitalWrite 2 True, DigitalWrite 4 False, DigitalWrite 3 False, Tone 6 140]
      else if beepHz > 0 then [ToneFor 6 beepHz beepDur] else [])"

definition pick3_msg :: "string \<Rightarrow> string \<Rightarrow> string \<Rightarrow> 32 word \<Rightarrow> string" where
  "pick3_msg a b c r = (if r mod 3 = 0 then a else if r mod 3 = 1 then b else c)"

subsection \<open>Names for the statements\<close>

text \<open>
  \<open>tilt_event h s\<close> is the value \<open>t\<close> that \<open>loop()\<close> computes from the detector in
  a pass that gets beyond the dwell guard. \<open>anger_ok\<close> is the invariant of the anger
  level.
\<close>

definition tilt_event :: "hw \<Rightarrow> sentinel \<Rightarrow> bool" where
  "tilt_event h s = fst (event h (state s) (tilt s))"

definition anger_ok :: "sentinel \<Rightarrow> bool" where
  "anger_ok s = (anger s \<le> MAX_ANGER \<and> (state s = ANGRY \<longrightarrow> 1 \<le> anger s))"

text \<open>
  Concrete runs: the board boots at rest; the tilt pin stays low until the detector is armed
  (140 ms of accepted inactivity), then goes high and is accepted after the debounce
  window, which takes Idle to Alert; the same again takes Alert to Angry.
\<close>

definition boot_state :: sentinel where
  "boot_state = setup_ino (board 0 False True) 3"

definition to_alert :: "hw list" where
  "to_alert = [board 200 False True, board 340 False True, board 341 True True,
     board 346 True True]"

definition to_armed_alert :: "hw list" where
  "to_armed_alert = to_alert @ [board 546 False True, board 560 False True,
     board 700 False True, board 701 True True]"

definition to_angry :: "hw list" where
  "to_angry = to_armed_alert @ [board 715 True True]"

text \<open>
  Two more accepted tilts while Angry raise the anger level to 3; once Angry has lasted
  1200 ms the program locks; the button held low over 2000 ms unlocks it.
\<close>

definition to_angry3 :: "hw list" where
  "to_angry3 = to_angry @ [board 915 False True, board 929 False True, board 1069 False True,
     board 1070 True True, board 1084 True True, board 1085 False True, board 1099 False True,
     board 1239 False True, board 1240 True True, board 1254 True True]"

definition to_locked :: "hw list" where
  "to_locked = to_angry3 @ [board 1915 True True]"

definition to_held :: "hw list" where
  "to_held = to_locked @ [board 2115 True False]"

text \<open>
  \<open>polled h s\<close>: the pass with reading \<open>h\<close> gets beyond the dwell guard.
  \<open>held_through s hs\<close>: the passes \<open>hs\<close> from \<open>s\<close> on are all made in Locked, and
  each of them that reads the button finds it held. \<open>hold_started s0 hs t\<close>: in the run
  \<open>hs\<close> from \<open>s0\<close> some pass, made in Locked at clock \<open>t\<close>, read the button held,
  and so did every later pass that read it.
\<close>

definition polled :: "hw \<Rightarrow> sentinel \<Rightarrow> bool" where
  "polled h s = elapsed h (enteredAt s) MIN_STATE_MS"

fun held_through :: "sentinel \<Rightarrow> hw list \<Rightarrow> bool" where
  "held_through s [] = True"
| "held_through s (h # hs) =
     (state s = LOCKED \<and> (polled h s \<longrightarrow> buttonHeld h) \<and> held_through (loop h s) hs)"

definition hold_started :: "sentinel \<Rightarrow> hw list \<Rightarrow> 32 word \<Rightarrow> bool" where
  "hold_started s0 hs t =
     (\<exists>pre h0 post. hs = pre @ h0 # post \<and> state (run s0 pre) = LOCKED \<and> polled h0 (run s0 pre)
        \<and> buttonHeld h0 \<and> millis h0 = t \<and> held_through (run s0 (pre @ [h0])) post)"

text \<open>
  Telemetry. \<open>pass_out h s\<close> is what the pass with reading \<open>h\<close> appends to the log.
  \<open>stat_count\<close> counts the machine-readable lines of a log by their opening print;
  \<open>stat_patience\<close> lists their \<open>patienceMs\<close> fields (the only integers printed with
  \<open>println\<close>). \<open>entry_telemetry es st a p\<close>: the log piece \<open>es\<close> ends with the
  human-readable line of state \<open>st\<close> followed by the machine-readable line for \<open>st\<close>,
  anger \<open>a\<close> and patience \<open>p\<close>, and holds no other machine-readable line.
  \<open>pass_ok\<close> says so of one pass: no machine-readable line if the state stays, the
  telemetry pair of the new state if it changes.
\<close>

definition pass_out :: "hw \<Rightarrow> sentinel \<Rightarrow> effect list" where
  "pass_out h s = drop (length (out s)) (out (loop h s))"

definition stat_count :: "effect list \<Rightarrow> nat" where
  "stat_count es = count_list es (Serial_print ''@STAT state='')"

fun stat_patience :: "effect list \<Rightarrow> nat list" where
  "stat_patience [] = []"
| "stat_patience (Serial_println_num n # es) = n # stat_patience es"
| "stat_patience (e # es) = stat_patience es"

definition in_patience_range :: "nat \<Rightarrow> bool" where
  "in_patience_range n = (5000 \<le> n \<and> n \<le> 20000)"

definition entry_telemetry :: "effect list \<Rightarrow> State \<Rightarrow> 8 word \<Rightarrow> 32 word \<Rightarrow> bool" where
  "entry_telemetry es st a p =
     (\<exists>pre msg. es = pre @ state_line st msg @ stat_line st a p
        \<and> stat_count pre = 0 \<and> stat_patience pre = [])"

definition pass_ok :: "hw \<Rightarrow> sentinel \<Rightarrow> sentinel \<Rightarrow> bool" where
  "pass_ok h s s' =
     (\<exists>es. out s' = out s @ es \<and>
        (if state s' = state s then stat_count es = 0 \<and> stat_patience es = []
         else entry_telemetry es (state s') (anger s') (patience h)))"

text \<open>
  The tilt detector on its own. \<open>needDb_of\<close> is the debounce window that \<open>event\<close>
  computes from the state; \<open>stable h st d\<close>: the raw reading equals the last one
  observed and has not changed for that window, which is when \<open>event\<close> goes on to use
  it. The detector is driven by two operations, \<open>Poll\<close> (a call of \<open>event\<close>) and
  \<open>Reset\<close> (a call of \<open>reset\<close>); \<open>run_tilt\<close> gives the events of a sequence of
  them, \<open>tilt_after\<close> the detector memory after it, \<open>events_fired\<close> counts the events.
  \<open>win t0 lo ops\<close>: the clock offsets of the operations from \<open>t0\<close> (on the wrapping
  clock) never go back, start at \<open>lo\<close> or later and stay below the re-arm time.
  \<open>accepted act x d\<close>: operation \<open>x\<close> is a poll whose reading is stable and is active
  (\<open>act\<close> true) or inactive. \<open>undisturbed d ops\<close>: \<open>ops\<close> are polls, none with an
  accepted active reading. \<open>inactive_from d0 ops t\<close>: some poll of \<open>ops\<close>, at clock
  \<open>t\<close>, accepted an inactive reading and the rest is undisturbed. \<open>rearmed d0 ops\<close>:
  some poll accepted an inactive reading at least the re-arm time after such a \<open>t\<close>.
\<close>

definition needDb_of :: "State \<Rightarrow> 32 word" where
  "needDb_of st = (if st = IDLE then TILT_DB_IDLE_MS else TILT_DB_OTHER_MS)"

definition stable :: "hw \<Rightarrow> State \<Rightarrow> TiltEdge \<Rightarrow> bool" where
  "stable h st d = (lastRawAct d = rawActive h \<and> needDb_of st \<le> millis h - changedAt d)"

datatype tilt_op = Poll hw State | Reset hw

fun op_time :: "tilt_op \<Rightarrow> 32 word" where
  "op_time (Poll h st) = millis h"
| "op_time (Reset h) = millis h"

fun tilt_step :: "TiltEdge \<Rightarrow> tilt_op \<Rightarrow> bool \<times> TiltEdge" where
  "tilt_step d (Poll h st) = event h st d"
| "tilt_step d (Reset h) = (False, reset h d)"

fun run_tilt :: "TiltEdge \<Rightarrow> tilt_op list \<Rightarrow> bool list" where
  "run_tilt d [] = []"
| "run_tilt d (x # xs) = fst (tilt_step d x) # run_tilt (snd (tilt_step d x)) xs"

fun events_fired :: "bool list \<Rightarrow> nat" where
  "events_fired [] = 0"
| "events_fired (b # bs) = (if b then 1 else 0) + events_fired bs"

fun win :: "32 word \<Rightarrow> 32 word \<Rightarrow> tilt_op list \<Rightarrow> bool" where
  "win t0 lo [] = True"
| "win t0 lo (x # xs) =
     (lo \<le> op_time x - t0 \<and> op_time x - t0 < TILT_REARM_MS \<and> win t0 (op_time x - t0) xs)"

fun tilt_after :: "TiltEdge \<Rightarrow> tilt_op list \<Rightarrow> TiltEdge" where
  "tilt_after d [] = d"
| "tilt_after d (x # xs) = tilt_after (snd (tilt_step d x)) xs"

fun accepted :: "bool \<Rightarrow> tilt_op \<Rightarrow> TiltEdge \<Rightarrow> bool" where
  "accepted act (Poll h st) d = (stable h st d \<and> rawActive h = act)"
| "accepted act (Reset h) d = False"

fun undisturbed :: "TiltEdge \<Rightarrow> tilt_op list \<Rightarrow> bool" where
  "undisturbed d [] = True"
| "undisturbed d (Poll h st # xs) =
     (\<not> accepted True (Poll h st) d \<and> undisturbed (snd (tilt_step d (Poll h st))) xs)"
| "undisturbed d (Reset h # xs) = False"

definition inactive_from :: "TiltEdge \<Rightarrow> tilt_op list \<Rightarrow> 32 word \<Rightarrow> bool" where
  "inactive_from d0 ops t =
     (\<exists>pre x post. ops = pre @ x # post \<and> accepted False x (tilt_after d0 pre) \<and> op_time x = t
        \<and> undisturbed (tilt_after d0 (pre @ [x])) post)"

definition rearmed :: "TiltEdge \<Rightarrow> tilt_op list \<Rightarrow> bool" where
  "rearmed d0 ops =
     (\<exists>pre x post t. ops = pre @ x # post \<and> accepted False x (tilt_after d0 pre)
        \<and> inactive_from d0 pre t \<and> TILT_REARM_MS \<le> op_time x - t)"

section \<open>Basic facts\<close>

lemma leds_eq:
  "leds r y g s = s\<lparr>out := out s @ [DigitalWrite 2 r, DigitalWrite 4 y, DigitalWrite 3 g]\<rparr>"
  by (simp add: leds_def emit_def)

lemma showBaseLEDs_eq: "showBaseLEDs s = s\<lparr>out := out s @ base_leds (state s)\<rparr>"
  by (simp add: showBaseLEDs_def leds_eq base_leds_def split: State.split)

lemma printStateMsg_eq: "printStateMsg msg s = s\<lparr>out := out s @ state_line (state s) msg\<rparr>"
  by (simp add: printStateMsg_def emit_def state_line_def)

lemma printStatLine_eq:
  "printStatLine p s = s\<lparr>out := out s @ stat_line (state s) (anger s) p\<rparr>"
  by (simp add: printStatLine_def emit_def stat_line_def)

lemma enter_eq:
  "enter h next msg beepHz beepDur p s =
     s\<lparr>state := next, enteredAt := millis h, tilt := reset h (tilt s), angryRedOn := True,
       nextBlinkAt := millis h, nextBeepAt := millis h,
       out := out s @ entry_signals next beepHz beepDur @ state_line next msg
                @ stat_line next (anger s) p\<rparr>"
  by (simp add: enter_def Let_def stopSound_def emit_def leds_eq showBaseLEDs_eq
      printStateMsg_eq printStatLine_eq entry_signals_def)

lemma pick3_eq:
  "pick3 a b c s =
     (pick3_msg a b c (xorshift32 (rngState s)), s\<lparr>rngState := xorshift32 (rngState s)\<rparr>)"
  by (simp add: pick3_def rng_def Let_def pick3_msg_def)

lemma compliment_snd: "snd (compliment s) = s\<lparr>rngState := xorshift32 (rngState s)\<rparr>"
  by (simp add: compliment_def pick4_def rng_def Let_def)

lemma poll_fst: "fst (poll h s) = fst (event h (state s) (tilt s))"
  by (simp add: poll_def Let_def case_prod_beta)

lemma poll_fields:
  "state (snd (snd (poll h s))) = state s"
  "anger (snd (snd (poll h s))) = anger s"
  "enteredAt (snd (snd (poll h s))) = enteredAt s"
  "rngState (snd (snd (poll h s))) = rngState s"
  "holdAt (snd (snd (poll h s))) = holdAt s"
  "tilt (snd (snd (poll h s))) = snd (event h (state s) (tilt s))"
  by (simp_all add: poll_def Let_def case_prod_beta buttonPressEvent_def angryEffectsTick_def
      leds_eq emit_def)

lemmas step_defs = case_IDLE_def case_ALERT_def case_ANGRY_def case_COOLDOWN_def
  case_REWARD_def case_LOCKED_def Let_def case_prod_beta pick3_eq compliment_snd enter_eq
  inc_anger_def printStateMsg_eq

lemmas eval_defs = loop_def poll_def event_def rawActive_def reset_def elapsed_def
  buttonPressEvent_def buttonHeld_def angryEffectsTick_def patience_def analogRead_def
  arduino_map_def c_div_def step_defs board_def setup_ino_def globals_init_def
  TiltEdge_init_def seed_def leds_eq emit_def word_le_nat_alt word_less_nat_alt
  boot_state_def to_alert_def to_armed_alert_def to_angry_def to_angry3_def
  to_locked_def to_held_def

lemma reachable_run: "reachable s \<Longrightarrow> reachable (run s hs)"
  by (induction hs arbitrary: s) (auto intro: reachable.pass)

section \<open>The random message source\<close>

lemma xor_zero_eq: "(a::32 word) XOR b = 0 \<Longrightarrow> a = b"
proof -
  assume h: "a XOR b = 0"
  have "b = (a XOR a) XOR b" by simp
  also have "\<dots> = a XOR (a XOR b)" by (simp only: xor.assoc)
  also have "\<dots> = a" by (simp add: h)
  finally show ?thesis by simp
qed

text \<open>A left shift folded into the word wipes it out only when the word is zero: bit by
  bit from the low end, each bit equals one further down.\<close>

lemma push_fix: "0 < n \<Longrightarrow> x XOR push_bit n x = 0 \<Longrightarrow> x = (0::32 word)"
proof -
  assume n: "0 < n" and a: "x XOR push_bit n x = 0"
  then have e: "push_bit n x = x" using xor_zero_eq[of x "push_bit n x"] by simp
  have "bit x k = False" for k
  proof (induction k rule: less_induct)
    case (less k)
    have "bit x k = bit (push_bit n x) k" using e by simp
    also have "\<dots> = (n \<le> k \<and> k < 32 \<and> bit x (k - n))"
      by (auto simp add: bit_push_bit_iff dest: bit_imp_le_length)
    also have "\<dots> = False" using less[of "k - n"] n by auto
    finally show ?case .
  qed
  then show ?thesis by (simp add: bit_eq_iff)
qed

text \<open>The same for a right shift, from the high end.\<close>

lemma drop_fix: "0 < n \<Longrightarrow> x XOR drop_bit n x = 0 \<Longrightarrow> x = (0::32 word)"
proof -
  assume n: "0 < n" and a: "x XOR drop_bit n x = 0"
  then have e: "drop_bit n x = x" using xor_zero_eq[of x "drop_bit n x"] by simp
  have "bit x k = False" for k
  proof (induction "32 - k" arbitrary: k rule: less_induct)
    case less
    show ?case
    proof (cases "k < 32")
      case False then show ?thesis by (auto dest: bit_imp_le_length)
    next
      case True
      have "bit x k = bit (drop_bit n x) k" using e by simp
      also have "\<dots> = bit x (n + k)" by (simp add: bit_drop_bit_eq)
      also have "\<dots> = False" using less[of "n + k"] n True by simp
      finally show ?thesis .
    qed
  qed
  then show ?thesis by (simp add: bit_eq_iff)
qed

lemma xorshift32_zero_iff: "xorshift32 x = 0 \<longleftrightarrow> x = 0"
proof
  assume "xorshift32 x = 0"
  then have "(x XOR push_bit 13 x) XOR drop_bit 17 (x XOR push_bit 13 x) = 0"
    unfolding xorshift32_def Let_def by (rule push_fix[rotated]) simp
  then have "x XOR push_bit 13 x = 0" by (rule drop_fix[rotated]) simp
  then show "x = 0" by (rule push_fix[rotated]) simp
next
  assume "x = 0" then show "xorshift32 x = 0" by (simp add: xorshift32_def)
qed

lemma drop_ucast10: "drop_bit 10 (ucast (a::10 word) :: 32 word) = 0"
  by (rule bit_word_eqI) (auto simp add: bit_simps dest: bit_imp_le_length)

lemma seed_top: "drop_bit 26 (seed a b 0xA5A5A5A5) = drop_bit 26 (0xA5A5A5A5 :: 32 word)"
proof -
  have 1: "drop_bit 26 (push_bit 16 (ucast a :: 32 word)) = 0"
    by (rule bit_word_eqI) (auto simp add: bit_simps dest: bit_imp_le_length)
  have 2: "drop_bit 26 (ucast b :: 32 word) = drop_bit 16 (drop_bit 10 (ucast b :: 32 word))"
    by simp
  show ?thesis
    unfolding seed_def Let_def drop_bit_xor 1 2 drop_ucast10 by simp
qed

lemma seed_nonzero: "seed a b 0xA5A5A5A5 \<noteq> 0"
proof
  assume "seed a b 0xA5A5A5A5 = 0"
  then have "drop_bit 26 (seed a b 0xA5A5A5A5) = 0" by simp
  then show False by (simp add: seed_top)
qed

lemma setup_rngState: "rngState (setup_ino h pot2) = seed (pot h) pot2 0xA5A5A5A5"
  by (simp add: setup_ino_def Let_def enter_eq leds_eq emit_def globals_init_def)

lemma loop_rngState:
  "rngState (loop h s)
     \<in> {rngState s, xorshift32 (rngState s), xorshift32 (xorshift32 (rngState s))}"
  by (cases "state s") (simp_all add: loop_def step_defs poll_fields)

lemma reachable_rngState: "reachable s \<Longrightarrow> rngState s \<noteq> 0"
proof (induction rule: reachable.induct)
  case (boot h pot2)
  show ?case by (simp add: setup_rngState seed_nonzero)
next
  case (pass s h)
  then show ?case using loop_rngState[of h s] by (auto simp add: xorshift32_zero_iff)
qed

lemma xorshift32_xor: "xorshift32 (x XOR y) = xorshift32 x XOR xorshift32 y"
  by (simp add: xorshift32_def Let_def xor.assoc xor.left_commute xor.commute)

lemma xorshift32_inj: "xorshift32 x = xorshift32 y \<longleftrightarrow> x = y"
proof
  assume "xorshift32 x = xorshift32 y"
  then have "xorshift32 (x XOR y) = 0" by (simp add: xorshift32_xor)
  then have "x XOR y = 0" by (simp add: xorshift32_zero_iff)
  then show "x = y" by (rule xor_zero_eq)
qed simp

text \<open>
  A word that one xorshift32 step leaves in place is zero. Bit by bit the equation is a
  system of 32 exclusive-or equations over the 32 bits, and its only solution is zero.
\<close>

lemma bit_beyond_32: "32 \<le> n \<Longrightarrow> bit (x :: 32 word) n = False"
  by (auto dest: bit_imp_le_length)

lemma xorshift32_fixed: assumes "xorshift32 x = x" shows "x = 0"
proof -
  have F: "\<forall>i\<in>{0..<32}. bit (xorshift32 x) i = bit x i"
    using assms by simp
  have B: "\<forall>n\<in>{0..<32}. \<not> bit x n"
    using F
    apply (simp (no_asm_use) add: xorshift32_def Let_def bit_simps bit_beyond_32
             atLeastLessThan_nat_numeral)
    apply argo
    done
  show ?thesis
  proof (rule bit_word_eqI)
    fix n assume "n < LENGTH(32)"
    then have "n \<in> {0..<32}" by simp
    then show "bit x n = bit (0::32 word) n" using B by simp
  qed
qed


text \<open>
  C10. The generator state is never zero. The boot seed keeps bits 26 to 31 of
  \<open>0xA5A5A5A5\<close> whatever the two 10-bit conversions are, so it is not zero; one
  xorshift32 step returns zero exactly on zero (and is one-to-one); hence no state the
  program reaches has a zero generator state, and every call of \<open>rng()\<close> from such a
  state returns a nonzero value and leaves a nonzero state. Zero is the only state that
  a step leaves in place, the state from which the generator would return the same value
  (and pick the same phrase) forever; from a reachable state two calls of \<open>rng()\<close> in
  a row never return the same value.
\<close>

theorem rng_state_never_zero:
  "drop_bit 26 (seed a b 0xA5A5A5A5) = drop_bit 26 (0xA5A5A5A5 :: 32 word)
   \<and> seed a b 0xA5A5A5A5 \<noteq> 0
   \<and> (xorshift32 x = 0 \<longleftrightarrow> x = 0)
   \<and> (xorshift32 x = xorshift32 y \<longleftrightarrow> x = y)
   \<and> (xorshift32 x = x \<longleftrightarrow> x = 0)
   \<and> rngState (setup_ino h p2) = seed (pot h) p2 0xA5A5A5A5
   \<and> (reachable s \<longrightarrow>
        rngState s \<noteq> 0 \<and> fst (rng s) \<noteq> 0 \<and> rngState (snd (rng s)) \<noteq> 0
        \<and> fst (rng (snd (rng s))) \<noteq> fst (rng s))"
proof -
  have f: "xorshift32 x = x \<longleftrightarrow> x = 0"
    using xorshift32_fixed[of x] xorshift32_zero_iff[of x] by auto
  have r: "reachable s \<longrightarrow>
        rngState s \<noteq> 0 \<and> fst (rng s) \<noteq> 0 \<and> rngState (snd (rng s)) \<noteq> 0
        \<and> fst (rng (snd (rng s))) \<noteq> fst (rng s)"
    using reachable_rngState[of s] xorshift32_fixed[of "xorshift32 (rngState s)"]
    by (auto simp add: rng_def Let_def xorshift32_zero_iff)
  show ?thesis
    using seed_top[of a b] seed_nonzero[of a b] xorshift32_zero_iff[of x] xorshift32_inj[of x y]
      setup_rngState[of h p2] f r
    by blast
qed

theorem rng_state_never_zero_witness:
  "reachable (run boot_state to_alert)
   \<and> rngState (run boot_state to_alert) \<noteq> 0
   \<and> xorshift32 1 \<noteq> 0"
  using rng_state_never_zero[where x=1 and s="run boot_state to_alert"]
    reachable_run[OF reachable.boot, of "board 0 False True" 3 to_alert]
  by (simp add: boot_state_def)

section \<open>The anger level\<close>

lemma inc8:
  "(a::8 word) < 3 \<Longrightarrow> a + 1 \<le> 3 \<and> 1 \<le> a + 1 \<and> a < a + 1 \<and> a + 1 \<noteq> 0"
  by (auto simp add: word_le_nat_alt word_less_nat_alt unat_word_ariths unat_eq_0[symmetric])

lemma dec8: "(a::8 word) \<le> 3 \<Longrightarrow> a \<noteq> 0 \<Longrightarrow> a - 1 \<le> 3 \<and> a - 1 < a"
  by (auto simp add: word_le_nat_alt word_less_nat_alt unat_sub_if' unat_eq_0[symmetric])

lemma ge1_8: "(1 \<le> (a::8 word)) = (a \<noteq> 0)"
  by (auto simp add: word_le_nat_alt unat_eq_0[symmetric])

lemma unat_inc8: "(a::8 word) < 3 \<Longrightarrow> unat (a + 1) = Suc (unat a)"
  by (auto simp add: word_less_nat_alt unat_word_ariths)

lemma unat_dec8: "(a::8 word) \<noteq> 0 \<Longrightarrow> Suc (unat (a - 1)) = unat a"
  by (auto simp add: unat_sub_if' word_le_nat_alt unat_eq_0[symmetric])

lemma setup_anger_ok: "anger_ok (setup_ino h p2)"
  by (simp add: anger_ok_def setup_ino_def Let_def enter_eq leds_eq emit_def globals_init_def)

lemma loop_anger_ok: "anger_ok s \<Longrightarrow> anger_ok (loop h s)"
  unfolding anger_ok_def
  by (cases "state s") (auto simp add: loop_def step_defs poll_fields inc8 dec8 ge1_8)

lemma reachable_anger_ok: "reachable s \<Longrightarrow> anger_ok s"
  by (induction rule: reachable.induct) (simp_all add: setup_anger_ok loop_anger_ok)

text \<open>
  C9. In every reachable state that is Angry the anger level is at least 1. Angry is
  entered only from Alert and Cooldown, only on a tilt event, and with the anger level
  raised (or already at the maximum); a pass that stays in Angry never lowers it. So the
  guarded decrement of the Angry to Cooldown transition always finds a nonzero level and
  takes exactly 1 off the level that the pass's own increment left.
\<close>

theorem angry_anger_positive:
  "(reachable s \<and> state s = ANGRY \<longrightarrow> 1 \<le> anger s)
   \<and> (state s \<noteq> ANGRY \<and> state (loop h s) = ANGRY \<longrightarrow>
        state s \<in> {ALERT, COOLDOWN} \<and> tilt_event h s
        \<and> anger (loop h s) = (if anger s < MAX_ANGER then anger s + 1 else anger s)
        \<and> 1 \<le> anger (loop h s))
   \<and> (state s = ANGRY \<and> state (loop h s) = ANGRY \<longrightarrow> anger s \<le> anger (loop h s))
   \<and> (reachable s \<and> state s = ANGRY \<and> state (loop h s) = COOLDOWN \<longrightarrow>
        unat (anger (loop h s)) + 1
          = unat (if tilt_event h s \<and> anger s < MAX_ANGER then anger s + 1 else anger s))"
proof -
  have 1: "reachable s \<and> state s = ANGRY \<longrightarrow> 1 \<le> anger s"
    using reachable_anger_ok[of s] by (auto simp add: anger_ok_def)
  have 2: "state s \<noteq> ANGRY \<and> state (loop h s) = ANGRY \<longrightarrow>
        state s \<in> {ALERT, COOLDOWN} \<and> tilt_event h s
        \<and> anger (loop h s) = (if anger s < MAX_ANGER then anger s + 1 else anger s)
        \<and> 1 \<le> anger (loop h s)"
    by (cases "state s")
       (auto simp add: loop_def step_defs poll_fields poll_fst tilt_event_def inc8 ge1_8
             split: if_splits)
  have 3: "state s = ANGRY \<and> state (loop h s) = ANGRY \<longrightarrow> anger s \<le> anger (loop h s)"
    using inc8[of "anger s"]
    by (auto simp add: loop_def step_defs poll_fields poll_fst split: if_splits)
  have 4: "reachable s \<and> state s = ANGRY \<and> state (loop h s) = COOLDOWN \<longrightarrow>
        unat (anger (loop h s)) + 1
          = unat (if tilt_event h s \<and> anger s < MAX_ANGER then anger s + 1 else anger s)"
    using 1 inc8[of "anger s"]
    by (auto simp add: loop_def step_defs poll_fields poll_fst tilt_event_def ge1_8 unat_dec8
             unat_inc8 split: if_splits)
  show ?thesis using 1 2 3 4 by blast
qed


theorem angry_anger_positive_witness:
  "reachable (run boot_state to_angry)
   \<and> state (run boot_state to_angry) = ANGRY
   \<and> 1 \<le> anger (run boot_state to_angry)
   \<and> state (loop (board 15715 False True) (run boot_state to_angry)) = COOLDOWN
   \<and> unat (anger (loop (board 15715 False True) (run boot_state to_angry))) + 1
       = unat (anger (run boot_state to_angry))"
proof -
  have r: "reachable (run boot_state to_angry)"
    unfolding boot_state_def by (rule reachable_run[OF reachable.boot])
  have a: "state (run boot_state to_angry) = ANGRY"
    by (simp add: eval_defs)
  have c: "state (loop (board 15715 False True) (run boot_state to_angry)) = COOLDOWN"
    by (simp add: eval_defs)
  have t: "\<not> tilt_event (board 15715 False True) (run boot_state to_angry)"
    by (simp add: tilt_event_def eval_defs)
  show ?thesis
    using angry_anger_positive[of "run boot_state to_angry" "board 15715 False True"] r a c t
    by simp
qed



text \<open>
  C1. In every reachable state the anger level is between 0 and 3. Over one pass of
  \<open>loop()\<close> it either stays, or goes up by exactly 1 (only from below 3, only in a pass
  that gets beyond the dwell guard with a tilt event, and only from Alert, Angry or
  Cooldown), or goes down by exactly 1 (only on the Angry to Cooldown transition), or is
  set to 0 on the Locked to Idle transition; nothing else changes it. A tilt event in
  Alert or Cooldown, and one in Angry when the pass does not go on to Cooldown, leaves
  the level at the old one plus 1, capped at 3. (An Angry pass that has a tilt event and
  then cools down adds 1 and takes 1 off again.)
\<close>

theorem anger_changes:
  "(reachable s \<longrightarrow> anger s \<le> MAX_ANGER)
   \<and> (anger (loop h s) = anger s
      \<or> (unat (anger (loop h s)) = unat (anger s) + 1 \<and> anger s < MAX_ANGER
          \<and> elapsed h (enteredAt s) MIN_STATE_MS \<and> tilt_event h s
          \<and> state s \<in> {ALERT, ANGRY, COOLDOWN})
      \<or> (unat (anger (loop h s)) + 1 = unat (anger s)
          \<and> state s = ANGRY \<and> state (loop h s) = COOLDOWN)
      \<or> (anger (loop h s) = 0 \<and> state s = LOCKED \<and> state (loop h s) = IDLE))
   \<and> (elapsed h (enteredAt s) MIN_STATE_MS \<and> tilt_event h s
        \<and> (state s \<in> {ALERT, COOLDOWN} \<or> state s = ANGRY \<and> state (loop h s) \<noteq> COOLDOWN)
       \<longrightarrow> anger (loop h s) = (if anger s < MAX_ANGER then anger s + 1 else anger s))
   \<and> (state s = LOCKED \<and> state (loop h s) = IDLE \<longrightarrow> anger (loop h s) = 0)"
proof -
  have 1: "reachable s \<longrightarrow> anger s \<le> MAX_ANGER"
    using reachable_anger_ok[of s] by (auto simp add: anger_ok_def)
  have 2: "anger (loop h s) = anger s
      \<or> (unat (anger (loop h s)) = unat (anger s) + 1 \<and> anger s < MAX_ANGER
          \<and> elapsed h (enteredAt s) MIN_STATE_MS \<and> tilt_event h s
          \<and> state s \<in> {ALERT, ANGRY, COOLDOWN})
      \<or> (unat (anger (loop h s)) + 1 = unat (anger s)
          \<and> state s = ANGRY \<and> state (loop h s) = COOLDOWN)
      \<or> (anger (loop h s) = 0 \<and> state s = LOCKED \<and> state (loop h s) = IDLE)"
    using inc8[of "anger s"]
    by (cases "state s")
       (auto simp add: loop_def step_defs poll_fields poll_fst tilt_event_def unat_inc8 unat_dec8)
  have 3: "elapsed h (enteredAt s) MIN_STATE_MS \<and> tilt_event h s
        \<and> (state s \<in> {ALERT, COOLDOWN} \<or> state s = ANGRY \<and> state (loop h s) \<noteq> COOLDOWN)
       \<longrightarrow> anger (loop h s) = (if anger s < MAX_ANGER then anger s + 1 else anger s)"
    by (cases "state s")
       (auto simp add: loop_def step_defs poll_fields poll_fst tilt_event_def split: if_splits)
  have 4: "state s = LOCKED \<and> state (loop h s) = IDLE \<longrightarrow> anger (loop h s) = 0"
    by (auto simp add: loop_def step_defs poll_fields poll_fst split: if_splits)
  show ?thesis using 1 2 3 4 by blast
qed

theorem anger_changes_witness:
  "reachable (run boot_state to_armed_alert)
   \<and> anger (run boot_state to_armed_alert) \<le> MAX_ANGER
   \<and> state (run boot_state to_armed_alert) = ALERT
   \<and> tilt_event (board 715 True True) (run boot_state to_armed_alert)
   \<and> anger (loop (board 715 True True) (run boot_state to_armed_alert))
       = anger (run boot_state to_armed_alert) + 1
   \<and> state (run boot_state to_held) = LOCKED
   \<and> state (loop (board 4115 True False) (run boot_state to_held)) = IDLE
   \<and> anger (loop (board 4115 True False) (run boot_state to_held)) = 0"
proof -
  have r: "reachable (run boot_state to_armed_alert)"
    unfolding boot_state_def by (rule reachable_run[OF reachable.boot])
  have a: "state (run boot_state to_armed_alert) = ALERT"
    by (simp add: eval_defs)
  have b: "anger (run boot_state to_armed_alert) = 0"
    by (simp add: eval_defs)
  have g: "elapsed (board 715 True True) (enteredAt (run boot_state to_armed_alert)) MIN_STATE_MS"
    by (simp add: eval_defs)
  have t: "tilt_event (board 715 True True) (run boot_state to_armed_alert)"
    by (simp add: tilt_event_def eval_defs)
  have l: "state (run boot_state to_held) = LOCKED"
    by (simp add: eval_defs)
  have i: "state (loop (board 4115 True False) (run boot_state to_held)) = IDLE"
    by (simp add: eval_defs)
  show ?thesis
    using anger_changes[of "run boot_state to_armed_alert" "board 715 True True"]
      anger_changes[of "run boot_state to_held" "board 4115 True False"] r a b g t l i
    by simp
qed


section \<open>Timing guards of the state machine\<close>

lemma word32_le_trans200: "(1200::32 word) \<le> x \<Longrightarrow> 200 \<le> x"
  by (simp add: word_le_nat_alt)

lemma pot_bound: "unat (p :: 10 word) \<le> 1023"
proof -
  have "unat p < 2 ^ LENGTH(10)" by (rule unsigned_less)
  then show ?thesis by simp
qed

lemma patience_unat: "unat (patience h) = 5000 + unat (pot h) * 15000 div 1023"
proof -
  have b: "unat (pot h) \<le> 1023" by (rule pot_bound)
  have u: "uint (pot h) = int (unat (pot h))" by simp
  have m: "arduino_map (analogRead h) 0 1023 5000 20000 = int (5000 + unat (pot h) * 15000 div 1023)"
    by (simp add: arduino_map_def analogRead_def c_div_def u zdiv_int del: of_nat_unat)
  have "unat (pot h) * 15000 div 1023 \<le> 15000" using b by simp
  then have lt: "5000 + unat (pot h) * 15000 div 1023 < 2 ^ 32" by simp
  have "unat (patience h) = unat (word_of_nat (5000 + unat (pot h) * 15000 div 1023) :: 32 word)"
    unfolding patience_def m by simp
  also have "\<dots> = 5000 + unat (pot h) * 15000 div 1023"
    using lt by (simp only: unat_of_nat take_bit_nat_eq_self mod_less, simp)
  finally show ?thesis .
qed

lemma patience_range: "5000 \<le> patience h \<and> patience h \<le> 20000"
proof -
  have b: "unat (pot h) \<le> 1023" by (rule pot_bound)
  then have "unat (pot h) * 15000 div 1023 \<le> 15000" by simp
  then show ?thesis by (simp add: word_le_nat_alt patience_unat)
qed

lemma patience_ge200: "patience h \<le> x \<Longrightarrow> 200 \<le> x"
  using patience_range[of h] by (simp add: word_le_nat_alt)

text \<open>
  C3. A pass of \<open>loop()\<close> made less than 200 ms (on the 32-bit millisecond clock) after
  the current state was entered returns the program state as it was: no field changes,
  neither detector's memory is touched, and nothing is appended to the output log. The
  guard is the first thing \<open>loop\<close> does. So a pass that changes anything, and in
  particular one that changes the state, comes at a dwell of at least 200 ms; and
  \<open>enteredAt\<close> is the time of the pass that entered the current state, since it is set
  to the clock by every state change and kept by every pass that stays.
\<close>

theorem dwell_guard:
  "(millis h - enteredAt s < MIN_STATE_MS \<longrightarrow> loop h s = s)
   \<and> (loop h s \<noteq> s \<longrightarrow> MIN_STATE_MS \<le> millis h - enteredAt s)
   \<and> (state (loop h s) \<noteq> state s \<longrightarrow>
        MIN_STATE_MS \<le> millis h - enteredAt s \<and> enteredAt (loop h s) = millis h)
   \<and> (state (loop h s) = state s \<longrightarrow> enteredAt (loop h s) = enteredAt s)"
proof -
  have 1: "millis h - enteredAt s < MIN_STATE_MS \<longrightarrow> loop h s = s"
    by (simp add: loop_def elapsed_def not_le)
  have 2: "state (loop h s) \<noteq> state s \<longrightarrow> enteredAt (loop h s) = millis h"
    by (cases "state s") (auto simp add: loop_def step_defs poll_fields split: if_splits)
  have 3: "state (loop h s) = state s \<longrightarrow> enteredAt (loop h s) = enteredAt s"
    by (cases "state s") (auto simp add: loop_def step_defs poll_fields split: if_splits)
  show ?thesis using 1 2 3 by (auto simp add: not_le[symmetric])
qed

theorem dwell_guard_witness:
  "millis (board 100 True False) - enteredAt boot_state < MIN_STATE_MS
   \<and> loop (board 100 True False) boot_state = boot_state
   \<and> state (loop (board 715 True True) (run boot_state to_armed_alert))
       \<noteq> state (run boot_state to_armed_alert)
   \<and> MIN_STATE_MS \<le> millis (board 715 True True) - enteredAt (run boot_state to_armed_alert)
   \<and> enteredAt (loop (board 715 True True) (run boot_state to_armed_alert)) = 715"
proof -
  have a: "millis (board 100 True False) - enteredAt boot_state < MIN_STATE_MS"
    by (simp add: eval_defs)
  have b: "state (loop (board 715 True True) (run boot_state to_armed_alert))
       \<noteq> state (run boot_state to_armed_alert)"
    by (simp add: eval_defs)
  have c: "millis (board 715 True True) = 715"
    by (simp add: board_def)
  show ?thesis
    using dwell_guard[of "board 100 True False" boot_state]
      dwell_guard[of "board 715 True True" "run boot_state to_armed_alert"] a b c
    by simp
qed

text \<open>
  C2. From a reachable Angry state a pass goes to Locked exactly when the anger level,
  after the pass's own tilt increment, is 3 and at least 1200 ms have passed since Angry
  was entered. A pass that stays in Angry, with or without a tilt event, keeps the entry
  timestamp. Locked is entered from Angry only.
\<close>

theorem angry_lockout:
  "(reachable s \<and> state s = ANGRY \<longrightarrow>
      (state (loop h s) = LOCKED \<longleftrightarrow>
         (if tilt_event h s \<and> anger s < MAX_ANGER then anger s + 1 else anger s) = MAX_ANGER
         \<and> 1200 \<le> millis h - enteredAt s))
   \<and> (state s = ANGRY \<and> state (loop h s) = ANGRY \<longrightarrow> enteredAt (loop h s) = enteredAt s)
   \<and> (state s \<noteq> LOCKED \<and> state (loop h s) = LOCKED \<longrightarrow> state s = ANGRY)"
proof -
  have a: "reachable s \<Longrightarrow> anger s \<le> 3"
    using reachable_anger_ok[of s] by (simp add: anger_ok_def)
  have 1: "reachable s \<and> state s = ANGRY \<longrightarrow>
      (state (loop h s) = LOCKED \<longleftrightarrow>
         (if tilt_event h s \<and> anger s < MAX_ANGER then anger s + 1 else anger s) = MAX_ANGER
         \<and> 1200 \<le> millis h - enteredAt s)"
    using a inc8[of "anger s"] word32_le_trans200[of "millis h - enteredAt s"]
    by (auto simp add: loop_def step_defs poll_fields poll_fst tilt_event_def elapsed_def
             split: if_splits)
  have 2: "state s = ANGRY \<and> state (loop h s) = ANGRY \<longrightarrow> enteredAt (loop h s) = enteredAt s"
    by (auto simp add: loop_def step_defs poll_fields split: if_splits)
  have 3: "state s \<noteq> LOCKED \<and> state (loop h s) = LOCKED \<longrightarrow> state s = ANGRY"
    by (cases "state s") (auto simp add: loop_def step_defs poll_fields split: if_splits)
  show ?thesis using 1 2 3 by blast
qed

theorem angry_lockout_witness:
  "reachable (run boot_state to_angry3)
   \<and> state (run boot_state to_angry3) = ANGRY
   \<and> anger (run boot_state to_angry3) = MAX_ANGER
   \<and> 1200 \<le> millis (board 1915 True True) - enteredAt (run boot_state to_angry3)
   \<and> state (loop (board 1915 True True) (run boot_state to_angry3)) = LOCKED"
proof -
  have r: "reachable (run boot_state to_angry3)"
    unfolding boot_state_def by (rule reachable_run[OF reachable.boot])
  have a: "state (run boot_state to_angry3) = ANGRY"
    by (simp add: eval_defs)
  have b: "anger (run boot_state to_angry3) = MAX_ANGER"
    by (simp add: eval_defs)
  have c: "1200 \<le> millis (board 1915 True True) - enteredAt (run boot_state to_angry3)"
    by (simp add: eval_defs)
  show ?thesis
    using angry_lockout[of "run boot_state to_angry3" "board 1915 True True"] r a b c
    by simp
qed

text \<open>
  C5. From Idle a pass goes to Reward exactly when the pass has no tilt event and the Idle
  dwell is at least the patience value of the same pass. That value is computed from the
  potentiometer conversion of the pass (the program state has no field for it): 5000 plus
  the conversion times 15000 divided by 1023, rounded down, hence between 5000 and 20000.
  Reward is entered from Idle only.
\<close>

theorem idle_reward:
  "(state s = IDLE \<longrightarrow>
      (state (loop h s) = REWARD \<longleftrightarrow>
         \<not> tilt_event h s \<and> patience h \<le> millis h - enteredAt s))
   \<and> (state s \<noteq> REWARD \<and> state (loop h s) = REWARD \<longrightarrow> state s = IDLE)
   \<and> unat (patience h) = 5000 + unat (pot h) * 15000 div 1023
   \<and> 5000 \<le> patience h \<and> patience h \<le> 20000"
proof -
  have 1: "state s = IDLE \<longrightarrow>
      (state (loop h s) = REWARD \<longleftrightarrow>
         \<not> tilt_event h s \<and> patience h \<le> millis h - enteredAt s)"
    using patience_ge200[of h "millis h - enteredAt s"]
    by (auto simp add: loop_def step_defs poll_fields poll_fst tilt_event_def elapsed_def
             split: if_splits)
  have 2: "state s \<noteq> REWARD \<and> state (loop h s) = REWARD \<longrightarrow> state s = IDLE"
    by (cases "state s") (auto simp add: loop_def step_defs poll_fields split: if_splits)
  show ?thesis using 1 2 patience_unat[of h] patience_range[of h] by blast
qed

theorem idle_reward_witness:
  "state boot_state = IDLE
   \<and> \<not> tilt_event (board 12507 False True) boot_state
   \<and> patience (board 12507 False True) = 12507
   \<and> state (loop (board 12507 False True) boot_state) = REWARD
   \<and> state (loop (board 12506 False True) boot_state) = IDLE"
proof -
  have a: "state boot_state = IDLE"
    by (simp add: eval_defs)
  have t: "\<not> tilt_event (board 12507 False True) boot_state"
    "\<not> tilt_event (board 12506 False True) boot_state"
    by (simp_all add: tilt_event_def eval_defs)
  have p: "patience (board 12507 False True) = 12507" "patience (board 12506 False True) = 12507"
    by (simp_all add: eval_defs)
  have d: "millis (board 12507 False True) - enteredAt boot_state = 12507"
    "millis (board 12506 False True) - enteredAt boot_state = 12506"
    by (simp_all add: eval_defs)
  have i: "state (loop (board 12506 False True) boot_state) = IDLE"
    by (simp add: eval_defs)
  show ?thesis
    using idle_reward[of boot_state "board 12507 False True"] a t p d i
    by simp
qed


section \<open>Lockout\<close>

lemma button_tilt_pin: "buttonPressEvent (h\<lparr>pin_tilt := b\<rparr>) s = buttonPressEvent h s"
  by (auto simp add: buttonPressEvent_def elapsed_def Let_def)

lemma button_tilt_field:
  "buttonPressEvent h (s\<lparr>tilt := d\<rparr>)
     = (fst (buttonPressEvent h s), (snd (buttonPressEvent h s))\<lparr>tilt := d\<rparr>)"
  by (auto simp add: buttonPressEvent_def elapsed_def Let_def)

lemma button_fields:
  "state (snd (buttonPressEvent h s)) = state s"
  "out (snd (buttonPressEvent h s)) = out s"
  by (simp_all add: buttonPressEvent_def Let_def)

lemma poll_locked:
  "state s = LOCKED \<Longrightarrow>
   snd (snd (poll h s)) =
     (snd (buttonPressEvent h s))
       \<lparr>tilt := snd (event h LOCKED (tilt s)),
        out := out s @ [DigitalWrite 2 True, DigitalWrite 4 False, DigitalWrite 3 False]\<rparr>"
  by (simp add: poll_def Let_def case_prod_beta button_tilt_field button_fields leds_eq)

lemma case_LOCKED_tilt:
  "(case_LOCKED (h\<lparr>pin_tilt := b\<rparr>) p (s\<lparr>tilt := d\<rparr>))\<lparr>tilt := x\<rparr>
     = (case_LOCKED h p s)\<lparr>tilt := x\<rparr>"
  by (simp add: step_defs buttonHeld_def elapsed_def)

lemma patience_tilt_pin: "patience (h\<lparr>pin_tilt := b\<rparr>) = patience h"
  by (simp add: patience_def analogRead_def)

lemma loop_locked_tilt: "state s = LOCKED \<Longrightarrow>
        (loop (h\<lparr>pin_tilt := b\<rparr>) (s\<lparr>tilt := d\<rparr>))\<lparr>tilt := x\<rparr> = (loop h s)\<lparr>tilt := x\<rparr>"
proof -
  assume L: "state s = LOCKED"
  let ?h = "h\<lparr>pin_tilt := b\<rparr>" and ?s = "s\<lparr>tilt := d\<rparr>"
  have L': "state ?s = LOCKED" using L by simp
  have g: "elapsed ?h (enteredAt ?s) MIN_STATE_MS = elapsed h (enteredAt s) MIN_STATE_MS"
    by (simp add: elapsed_def)
  have p: "snd (snd (poll ?h ?s)) = (snd (snd (poll h s)))\<lparr>tilt := snd (event ?h LOCKED d)\<rparr>"
    by (simp add: poll_locked[OF L] poll_locked[OF L'] button_tilt_pin button_tilt_field)
  show ?thesis
  proof (cases "elapsed h (enteredAt s) MIN_STATE_MS")
    case False
    then show ?thesis using g by (simp add: loop_def)
  next
    case True
    have a: "loop h s = case_LOCKED h (patience h) (snd (snd (poll h s)))"
      using True L by (simp add: loop_def Let_def case_prod_beta poll_fields)
    have b: "loop ?h ?s = case_LOCKED ?h (patience h) (snd (snd (poll ?h ?s)))"
      using True g L' by (simp add: loop_def Let_def case_prod_beta poll_fields patience_tilt_pin)
    show ?thesis
      unfolding a b p by (rule case_LOCKED_tilt)
  qed
qed


lemma run_append: "run s (xs @ ys) = run (run s xs) ys"
  by (induction xs arbitrary: s) simp_all

lemma held_through_snoc:
  "held_through s (xs @ [h]) =
     (held_through s xs \<and> state (run s xs) = LOCKED \<and> (polled h (run s xs) \<longrightarrow> buttonHeld h))"
  by (induction xs arbitrary: s) auto

lemma loop_holdAt_other: "state s \<noteq> LOCKED \<Longrightarrow> holdAt (loop h s) = holdAt s"
  by (cases "state s") (auto simp add: loop_def step_defs poll_fields)

lemma loop_holdAt_locked:
  "state s = LOCKED \<Longrightarrow>
     holdAt (loop h s) =
       (if \<not> polled h s then holdAt s
        else if \<not> buttonHeld h then 0
        else if holdAt s = 0 then (if 2000 \<le> (0::32 word) then 0 else millis h)
        else if 2000 \<le> millis h - holdAt s then 0 else holdAt s)"
  by (auto simp add: loop_def step_defs poll_fields polled_def elapsed_def)

lemma loop_state_holdAt: "state (loop h s) \<noteq> LOCKED \<Longrightarrow> state s = LOCKED \<Longrightarrow> holdAt (loop h s) = 0"
  by (auto simp add: loop_def step_defs poll_fields split: if_splits)

lemma hold_inv_step:
  assumes z: "state s \<noteq> LOCKED \<longrightarrow> holdAt s = 0"
  shows "state (loop h s) \<noteq> LOCKED \<longrightarrow> holdAt (loop h s) = 0"
  using z loop_holdAt_other[of s h] loop_state_holdAt[of h s] by (cases "state s = LOCKED") auto

lemma hold_inv:
  "holdAt s0 = 0 \<Longrightarrow>
   (state (run s0 hs) \<noteq> LOCKED \<longrightarrow> holdAt (run s0 hs) = 0)
   \<and> (holdAt (run s0 hs) \<noteq> 0 \<longrightarrow> hold_started s0 hs (holdAt (run s0 hs)))"
proof (induction hs rule: rev_induct)
  case Nil
  then show ?case by simp
next
  case (snoc h hs)
  let ?s = "run s0 hs"
  have rs: "run s0 (hs @ [h]) = loop h ?s" by (simp add: run_append)
  have i1: "state ?s \<noteq> LOCKED \<longrightarrow> holdAt ?s = 0" using snoc by simp
  have i2: "holdAt ?s \<noteq> 0 \<longrightarrow> hold_started s0 hs (holdAt ?s)" using snoc by simp
  have a: "state (loop h ?s) \<noteq> LOCKED \<longrightarrow> holdAt (loop h ?s) = 0"
    using i1 by (rule hold_inv_step)
  have b: "hold_started s0 (hs @ [h]) (holdAt (loop h ?s))" if nz: "holdAt (loop h ?s) \<noteq> 0"
  proof -
    have L: "state ?s = LOCKED"
      using nz i1 loop_holdAt_other[of ?s h] by auto
    note H = loop_holdAt_locked[OF L, of h]
    show ?thesis
    proof (cases "holdAt ?s = 0")
      case True
      then have p: "polled h ?s" "buttonHeld h" "holdAt (loop h ?s) = millis h"
        using nz H by (auto split: if_splits)
      have "hs @ [h] = hs @ h # []" "held_through (run s0 (hs @ [h])) []" by simp_all
      then show ?thesis
        unfolding hold_started_def using p L by metis
    next
      case False
      then have keep: "holdAt (loop h ?s) = holdAt ?s" "polled h ?s \<longrightarrow> buttonHeld h"
        using nz H by (auto split: if_splits)
      from False i2 obtain pre h0 post where
        sp: "hs = pre @ h0 # post" "state (run s0 pre) = LOCKED" "polled h0 (run s0 pre)"
            "buttonHeld h0" "millis h0 = holdAt ?s" "held_through (run s0 (pre @ [h0])) post"
        unfolding hold_started_def by blast
      have r: "run (run s0 (pre @ [h0])) post = ?s"
        using sp(1) by (simp add: run_append)
      have "held_through (run s0 (pre @ [h0])) (post @ [h])"
        using sp(6) L keep(2) r by (simp add: held_through_snoc)
      moreover have "hs @ [h] = pre @ h0 # (post @ [h])" using sp(1) by simp
      moreover have "millis h0 = holdAt (loop h ?s)" using sp(5) keep(1) by simp
      ultimately show ?thesis
        unfolding hold_started_def using sp(2,3,4) by blast
    qed
  qed
  show ?case using a b rs by simp
qed


lemma setup_holdAt: "holdAt (setup_ino hb p2) = 0"
  by (simp add: setup_ino_def Let_def enter_eq leds_eq emit_def globals_init_def)

text \<open>
  C4. From Locked a pass either stays or goes to Idle. It goes to Idle only when it reads
  the button held, with a hold-start timestamp set by an earlier pass and at least
  2000 ms old; it then sets the anger level to 0 and clears the timestamp. A pass that
  reads the button released clears the timestamp and stays Locked, so a later hold starts
  from nothing; a pass that reads it held starts the timestamp at the clock if it was
  clear and keeps it otherwise. Over a whole run from boot: when a pass unlocks, the run
  holds a pass, made in Locked at least 2000 ms before, that read the button held, and
  every pass between the two that read the button read it held. Neither the tilt pin nor
  the detector's memory matters while Locked: changing them changes nothing in the result
  of the pass but the detector's own memory (state, anger level, timestamps, generator
  state and output log are the same).
\<close>

theorem locked_exit:
  "(state s = LOCKED \<longrightarrow> state (loop h s) \<in> {LOCKED, IDLE})
   \<and> (state s = LOCKED \<and> state (loop h s) = IDLE \<longrightarrow>
        buttonHeld h \<and> holdAt s \<noteq> 0 \<and> 2000 \<le> millis h - holdAt s
        \<and> MIN_STATE_MS \<le> millis h - enteredAt s
        \<and> anger (loop h s) = 0 \<and> holdAt (loop h s) = 0)
   \<and> (state s = LOCKED \<and> MIN_STATE_MS \<le> millis h - enteredAt s \<and> \<not> buttonHeld h \<longrightarrow>
        state (loop h s) = LOCKED \<and> holdAt (loop h s) = 0)
   \<and> (state s = LOCKED \<and> MIN_STATE_MS \<le> millis h - enteredAt s \<and> buttonHeld h \<longrightarrow>
        (state (loop h s) = IDLE \<longleftrightarrow> holdAt s \<noteq> 0 \<and> 2000 \<le> millis h - holdAt s)
        \<and> (state (loop h s) = LOCKED \<longrightarrow>
             holdAt (loop h s) = (if holdAt s = 0 then millis h else holdAt s)))
   \<and> (state (run (setup_ino hb p2) hs) = LOCKED
        \<and> state (loop h (run (setup_ino hb p2) hs)) = IDLE \<longrightarrow>
        buttonHeld h
        \<and> hold_started (setup_ino hb p2) hs (holdAt (run (setup_ino hb p2) hs))
        \<and> 2000 \<le> millis h - holdAt (run (setup_ino hb p2) hs))
   \<and> (state s = LOCKED \<longrightarrow>
        (loop (h\<lparr>pin_tilt := b\<rparr>) (s\<lparr>tilt := d\<rparr>))\<lparr>tilt := tilt s\<rparr> = (loop h s)\<lparr>tilt := tilt s\<rparr>)"
proof -
  have 1: "state s = LOCKED \<longrightarrow> state (loop h s) \<in> {LOCKED, IDLE}"
    by (auto simp add: loop_def step_defs poll_fields split: if_splits)
  have 2: "state x = LOCKED \<and> state (loop h x) = IDLE \<longrightarrow>
        buttonHeld h \<and> holdAt x \<noteq> 0 \<and> 2000 \<le> millis h - holdAt x
        \<and> MIN_STATE_MS \<le> millis h - enteredAt x
        \<and> anger (loop h x) = 0 \<and> holdAt (loop h x) = 0" for x
    by (auto simp add: loop_def step_defs poll_fields elapsed_def split: if_splits)
  have 3: "state s = LOCKED \<and> MIN_STATE_MS \<le> millis h - enteredAt s \<and> \<not> buttonHeld h \<longrightarrow>
        state (loop h s) = LOCKED \<and> holdAt (loop h s) = 0"
    by (auto simp add: loop_def step_defs poll_fields elapsed_def split: if_splits)
  have 4: "state s = LOCKED \<and> MIN_STATE_MS \<le> millis h - enteredAt s \<and> buttonHeld h \<longrightarrow>
        (state (loop h s) = IDLE \<longleftrightarrow> holdAt s \<noteq> 0 \<and> 2000 \<le> millis h - holdAt s)
        \<and> (state (loop h s) = LOCKED \<longrightarrow>
             holdAt (loop h s) = (if holdAt s = 0 then millis h else holdAt s))"
    by (auto simp add: loop_def step_defs poll_fields elapsed_def split: if_splits)
  have 5: "state (run (setup_ino hb p2) hs) = LOCKED
        \<and> state (loop h (run (setup_ino hb p2) hs)) = IDLE \<longrightarrow>
        buttonHeld h
        \<and> hold_started (setup_ino hb p2) hs (holdAt (run (setup_ino hb p2) hs))
        \<and> 2000 \<le> millis h - holdAt (run (setup_ino hb p2) hs)"
    using 2[of "run (setup_ino hb p2) hs"] hold_inv[OF setup_holdAt, of hb p2 hs] by blast
  have 6: "state s = LOCKED \<longrightarrow>
        (loop (h\<lparr>pin_tilt := b\<rparr>) (s\<lparr>tilt := d\<rparr>))\<lparr>tilt := tilt s\<rparr> = (loop h s)\<lparr>tilt := tilt s\<rparr>"
    using loop_locked_tilt[where s=s and h=h and b=b and d=d and x="tilt s"] by blast
  show ?thesis using 1 2[of s] 3 4 5 6 by blast
qed


theorem locked_exit_witness:
  "state (run boot_state to_held) = LOCKED
   \<and> state (loop (board 4115 True False) (run boot_state to_held)) = IDLE
   \<and> buttonHeld (board 4115 True False)
   \<and> holdAt (run boot_state to_held) = 2115
   \<and> hold_started boot_state to_held 2115
   \<and> anger (loop (board 4115 True False) (run boot_state to_held)) = 0
   \<and> \<not> buttonHeld (board 3000 True True)
   \<and> state (loop (board 3000 True True) (run boot_state to_held)) = LOCKED
   \<and> holdAt (loop (board 3000 True True) (run boot_state to_held)) = 0"
proof -
  have l: "state (run boot_state to_held) = LOCKED"
    by (simp add: eval_defs)
  have i: "state (loop (board 4115 True False) (run boot_state to_held)) = IDLE"
    by (simp add: eval_defs)
  have t: "holdAt (run boot_state to_held) = 2115"
    by (simp add: eval_defs)
  have e: "enteredAt (run boot_state to_held) = 1915"
    by (simp add: eval_defs)
  have m: "millis (board 3000 True True) = 3000" "\<not> buttonHeld (board 3000 True True)"
    by (simp_all add: board_def buttonHeld_def)
  show ?thesis
    using locked_exit[where s="run boot_state to_held" and h="board 4115 True False"
        and hb="board 0 False True" and ?p2.0=3 and hs=to_held]
      locked_exit[where s="run boot_state to_held" and h="board 3000 True True"]
      l i t e m
    unfolding boot_state_def[symmetric]
    by (simp add: word_le_nat_alt)
qed

section \<open>Telemetry\<close>

lemma stat_count_simps:
  "stat_count [] = 0"
  "stat_count (e # es) = (if e = Serial_print ''@STAT state='' then 1 else 0) + stat_count es"
  by (simp_all add: stat_count_def)

lemma stat_count_append: "stat_count (xs @ ys) = stat_count xs + stat_count ys"
  by (induction xs) (simp_all add: stat_count_def)

lemma stat_patience_append: "stat_patience (xs @ ys) = stat_patience xs @ stat_patience ys"
  by (induction xs rule: stat_patience.induct) simp_all

lemma stat_free_signals:
  "stat_count (entry_signals n hz dur) = 0" "stat_patience (entry_signals n hz dur) = []"
  by (cases n; simp add: entry_signals_def base_leds_def stat_count_def)+

lemma stat_free_state_line:
  "stat_count (state_line st m) = 0" "stat_patience (state_line st m) = []"
  by (cases st; simp add: state_line_def stat_count_def)+

lemma stat_line_counts:
  "stat_count (stat_line st a p) = 1" "stat_patience (stat_line st a p) = [unat p]"
  by (cases st; simp add: stat_line_def stat_count_def)+

lemma poll_out:
  "\<exists>es. out (snd (snd (poll h s))) = out s @ es \<and> stat_count es = 0 \<and> stat_patience es = []"
  by (auto simp add: poll_def Let_def case_prod_beta buttonPressEvent_def angryEffectsTick_def
      leds_eq emit_def stat_count_def)

lemma enter_telemetry:
  assumes "out s2 = out s @ pre" "stat_count pre = 0" "stat_patience pre = []"
  shows "\<exists>es. out (enter h n m hz dur p s2) = out s @ es
           \<and> entry_telemetry es n (anger s2) p"
proof -
  have "out (enter h n m hz dur p s2)
          = out s @ ((pre @ entry_signals n hz dur) @ state_line n m @ stat_line n (anger s2) p)"
    using assms(1) by (simp add: enter_eq)
  moreover have "entry_telemetry ((pre @ entry_signals n hz dur) @ state_line n m @ stat_line n (anger s2) p)
                   n (anger s2) p"
    unfolding entry_telemetry_def
    using assms(2,3) by (intro exI[of _ "pre @ entry_signals n hz dur"] exI[of _ m])
      (simp add: stat_count_append stat_patience_append stat_free_signals)
  ultimately show ?thesis by blast
qed

lemma pass_ok_enter:
  assumes "out s2 = out s @ pre" "stat_count pre = 0" "stat_patience pre = []" "n \<noteq> state s"
  shows "pass_ok h s (enter h n m hz dur (patience h) s2)"
proof -
  obtain es where "out (enter h n m hz dur (patience h) s2) = out s @ es"
    "entry_telemetry es n (anger s2) (patience h)"
    using enter_telemetry[OF assms(1,2,3)] by blast
  then show ?thesis using assms(4) unfolding pass_ok_def by (auto simp add: enter_eq)
qed

lemma pass_ok_stay:
  assumes "out s2 = out s @ pre" "stat_count pre = 0" "stat_patience pre = []" "state s2 = state s"
  shows "pass_ok h s s2"
  using assms unfolding pass_ok_def by auto

lemma loop_pass_ok: "pass_ok h s (loop h s)"
proof (cases "elapsed h (enteredAt s) MIN_STATE_MS")
  case False
  then show ?thesis by (simp add: loop_def pass_ok_def stat_count_def)
next
  case True
  obtain es where es: "out (snd (snd (poll h s))) = out s @ es" "stat_count es = 0" "stat_patience es = []"
    using poll_out by blast
  let ?p = "snd (snd (poll h s))"
  have st: "state ?p = state s" by (simp add: poll_fields)
  note E = pass_ok_enter[where s=s and h=h and pre=es]
  note S = pass_ok_stay[where s=s and h=h and pre=es]
  show ?thesis
  proof (cases "state s")
    case IDLE
    then show ?thesis using True es st
      apply (simp add: loop_def case_IDLE_def Let_def case_prod_beta pick3_eq compliment_snd)
      apply (intro conjI impI)
      apply ((rule E | rule S); simp)+
      done
  next
    case ALERT
    then show ?thesis using True es st
      apply (simp add: loop_def case_ALERT_def Let_def case_prod_beta pick3_eq inc_anger_def)
      apply (intro conjI impI)
      apply ((rule E | rule S); simp)+
      done
  next
    case ANGRY
    show ?thesis
    proof (cases "fst (poll h s)")
      case False
      then show ?thesis using True es st ANGRY
        apply (simp add: loop_def case_ANGRY_def Let_def case_prod_beta pick3_eq inc_anger_def)
        apply (intro conjI impI)
        apply ((rule E | rule S); simp)+
        done
    next
      case t: True
      define m where "m = pick3_msg ''stop.'' ''enough.'' ''do not.'' (xorshift32 (rngState s))"
      have rf: "stat_count (es @ state_line ANGRY m) = 0" "stat_patience (es @ state_line ANGRY m) = []"
        using es by (simp_all add: stat_count_append stat_patience_append stat_free_state_line)
      note E' = pass_ok_enter[where s=s and h=h and pre="es @ state_line ANGRY m"]
      note S' = pass_ok_stay[where s=s and h=h and pre="es @ state_line ANGRY m"]
      show ?thesis using True es st ANGRY t rf
        apply (simp add: loop_def case_ANGRY_def Let_def case_prod_beta pick3_eq inc_anger_def
                 poll_fields printStateMsg_eq)
        apply (intro conjI impI)
        apply ((rule E' | rule S'); simp add: m_def poll_fields)+
        done
    qed
  next
    case COOLDOWN
    then show ?thesis using True es st
      apply (simp add: loop_def case_COOLDOWN_def Let_def case_prod_beta pick3_eq inc_anger_def)
      apply (intro conjI impI)
      apply ((rule E | rule S); simp)+
      done
  next
    case REWARD
    then show ?thesis using True es st
      apply (simp add: loop_def case_REWARD_def Let_def case_prod_beta pick3_eq)
      apply (intro conjI impI)
      apply ((rule E | rule S); simp)+
      done
  next
    case LOCKED
    then show ?thesis using True es st
      apply (simp add: loop_def case_LOCKED_def Let_def case_prod_beta pick3_eq)
      apply (intro conjI impI)
      apply ((rule E | rule S); simp)+
      done
  qed
qed


lemma entry_telemetry_counts:
  "entry_telemetry es st a p \<Longrightarrow> stat_count es = 1 \<and> stat_patience es = [unat p]"
  unfolding entry_telemetry_def
  by (auto simp add: stat_count_append stat_patience_append stat_free_state_line stat_line_counts)

lemma loop_out: "out (loop h s) = out s @ pass_out h s"
  using loop_pass_ok[of h s] unfolding pass_ok_def pass_out_def by auto

lemma pass_out_ok:
  "if state (loop h s) = state s
   then stat_count (pass_out h s) = 0 \<and> stat_patience (pass_out h s) = []
   else entry_telemetry (pass_out h s) (state (loop h s)) (anger (loop h s)) (patience h)"
  using loop_pass_ok[of h s] unfolding pass_ok_def pass_out_def by auto

lemma setup_telemetry: "entry_telemetry (out (setup_ino hb p2)) IDLE 0 0"
  unfolding entry_telemetry_def
  apply (rule exI[of _ "[Serial_begin 9600, PinMode 13 INPUT_PULLUP, PinMode 12 INPUT_PULLUP,
     PinMode 6 OUTPUT, PinMode 2 OUTPUT, PinMode 4 OUTPUT, PinMode 3 OUTPUT,
     DigitalWrite 2 False, DigitalWrite 4 False, DigitalWrite 3 False] @ entry_signals IDLE 880 70"])
  apply (rule exI[of _ "''stillness acknowledged.''"])
  apply (simp add: setup_ino_def Let_def enter_eq leds_eq emit_def globals_init_def
      stat_count_append stat_patience_append stat_free_signals stat_count_simps)
  done

lemma patience_in_range: "in_patience_range (unat (patience h))"
  using patience_range[of h] by (simp add: in_patience_range_def word_le_nat_alt)

lemma serial_signals: "serial_text (entry_signals n hz dur) = []"
  by (cases n) (simp_all add: serial_text_def entry_signals_def base_leds_def)

lemma serial_pair:
  "serial_text (state_line n msg @ stat_line n a p)
     = ''['' @ sName n @ ''] '' @ msg @ CRLF @ ''@STAT state='' @ sName n @ '' anger=''
       @ printNumber (unat a) @ '' patienceMs='' @ printNumber (unat p) @ CRLF"
  by (simp add: serial_text_def state_line_def stat_line_def)

lemma printNumber_0: "printNumber 0 = ''0''"
  by code_simp

text \<open>
  C6, as the sketch has it. Every state entry appends, after its pin and tone calls (which
  print nothing), exactly one line \<open>[STATE] message\<close> followed by exactly one line
  \<open>@STAT state=STATE anger=N patienceMs=MS\<close>, with the name of the state entered and
  the anger level the program has after the entry. A pass of \<open>loop()\<close> that changes the
  state ends its output with that pair, has exactly one machine-readable line, and prints
  as \<open>patienceMs\<close> the patience value of the pass, which lies in 5000 to 20000; a pass
  that keeps the state prints no machine-readable line. The entry made by \<open>setup()\<close> at
  boot prints the pair for Idle with anger 0 and \<open>patienceMs=0\<close>.
\<close>

theorem entry_telemetry_pair:
  "out (enter h n msg hz dur p s)
     = out s @ entry_signals n hz dur @ state_line n msg @ stat_line n (anger s) p
   \<and> state (enter h n msg hz dur p s) = n \<and> anger (enter h n msg hz dur p s) = anger s
   \<and> serial_text (entry_signals n hz dur) = []
   \<and> serial_text (state_line n msg @ stat_line n a p)
       = ''['' @ sName n @ ''] '' @ msg @ CRLF @ ''@STAT state='' @ sName n @ '' anger=''
         @ printNumber (unat a) @ '' patienceMs='' @ printNumber (unat p) @ CRLF
   \<and> out (loop h s) = out s @ pass_out h s
   \<and> (state (loop h s) \<noteq> state s \<longrightarrow>
        entry_telemetry (pass_out h s) (state (loop h s)) (anger (loop h s)) (patience h)
        \<and> stat_count (pass_out h s) = 1
        \<and> stat_patience (pass_out h s) = [unat (patience h)])
   \<and> (state (loop h s) = state s \<longrightarrow>
        stat_count (pass_out h s) = 0 \<and> stat_patience (pass_out h s) = [])
   \<and> in_patience_range (unat (patience h))
   \<and> list_all in_patience_range (stat_patience (pass_out h s))
   \<and> entry_telemetry (out (setup_ino hb p2)) IDLE 0 0
   \<and> state (setup_ino hb p2) = IDLE \<and> anger (setup_ino hb p2) = 0
   \<and> stat_count (out (setup_ino hb p2)) = 1
   \<and> stat_patience (out (setup_ino hb p2)) = [0]"
proof -
  have 1: "out (enter h n msg hz dur p s)
     = out s @ entry_signals n hz dur @ state_line n msg @ stat_line n (anger s) p
   \<and> state (enter h n msg hz dur p s) = n \<and> anger (enter h n msg hz dur p s) = anger s"
    by (simp add: enter_eq)
  have 2: "state (loop h s) \<noteq> state s \<longrightarrow>
        entry_telemetry (pass_out h s) (state (loop h s)) (anger (loop h s)) (patience h)
        \<and> stat_count (pass_out h s) = 1
        \<and> stat_patience (pass_out h s) = [unat (patience h)]"
    using pass_out_ok[of h s] entry_telemetry_counts by auto
  have 3: "state (loop h s) = state s \<longrightarrow>
        stat_count (pass_out h s) = 0 \<and> stat_patience (pass_out h s) = []"
    using pass_out_ok[of h s] by auto
  have 4: "list_all in_patience_range (stat_patience (pass_out h s))"
    using 2 3 patience_in_range[of h] by (cases "state (loop h s) = state s") auto
  have 5: "state (setup_ino hb p2) = IDLE \<and> anger (setup_ino hb p2) = 0"
    by (simp add: setup_ino_def Let_def enter_eq leds_eq emit_def globals_init_def)
  have 6: "stat_count (out (setup_ino hb p2)) = 1 \<and> stat_patience (out (setup_ino hb p2)) = [0]"
    using entry_telemetry_counts[OF setup_telemetry, of hb p2] by simp
  show ?thesis
    using 1 2 3 4 5 6 serial_signals[of n hz dur] serial_pair[of n msg a p] loop_out[of h s]
      patience_in_range[of h] setup_telemetry[of hb p2]
    by blast
qed

theorem entry_telemetry_pair_witness:
  "state (loop (board 715 True True) (run boot_state to_armed_alert))
     \<noteq> state (run boot_state to_armed_alert)
   \<and> stat_count (pass_out (board 715 True True) (run boot_state to_armed_alert)) = 1
   \<and> stat_patience (pass_out (board 715 True True) (run boot_state to_armed_alert)) = [12507]
   \<and> in_patience_range 12507"
proof -
  have b: "state (loop (board 715 True True) (run boot_state to_armed_alert))
       \<noteq> state (run boot_state to_armed_alert)"
    by (simp add: eval_defs)
  have p: "unat (patience (board 715 True True)) = 12507"
    by (simp add: eval_defs)
  show ?thesis
    using entry_telemetry_pair[where h="board 715 True True"
        and s="run boot_state to_armed_alert"] b p
    by simp
qed

text \<open>
  The specification gives \<open>patienceMs\<close> the range 5000 to 20000 on every state
  entry. The entry of Idle at boot prints 0: \<open>setup()\<close> passes the literal 0 to
  \<open>enter\<close>, before any potentiometer conversion has been mapped.
\<close>

theorem boot_stat_counterexample:
  "stat_patience (out boot_state) = [0]
   \<and> \<not> list_all in_patience_range (stat_patience (out boot_state))
   \<and> serial_text (out boot_state)
       = ''[IDLE] stillness acknowledged.'' @ CRLF @ ''@STAT state=IDLE anger=0 patienceMs=0'' @ CRLF"
  by (simp add: eval_defs entry_signals_def base_leds_def state_line_def stat_line_def
      in_patience_range_def serial_text_def printNumber_0)


section \<open>The tilt detector\<close>

lemma event_eq:
  "event h st d =
     (if \<not> stable h st d
      then (False, d\<lparr>lastRawAct := rawActive h,
                     changedAt := (if rawActive h \<noteq> lastRawAct d then millis h else changedAt d)\<rparr>)
      else if rawActive h then (armed d, d\<lparr>inactiveSince := 0, armed := False\<rparr>)
      else (False,
            d\<lparr>inactiveSince := (if inactiveSince d = 0 then millis h else inactiveSince d),
              armed := (armed d \<or> TILT_REARM_MS
                          \<le> millis h - (if inactiveSince d = 0 then millis h else inactiveSince d))\<rparr>))"
  by (auto simp add: event_def stable_def needDb_of_def elapsed_def Let_def)


lemma rearm_too_early:
  "a - t0 \<le> t - t0 \<Longrightarrow> t - t0 < TILT_REARM_MS \<Longrightarrow> \<not> TILT_REARM_MS \<le> t - (a::32 word)"
proof -
  assume le: "a - t0 \<le> t - t0" and lt: "t - t0 < TILT_REARM_MS"
  have "t - a = (t - t0) - (a - t0)" by simp
  also have "\<dots> \<le> t - t0" using le by (rule word_sub_le)
  finally show ?thesis using lt by simp
qed

lemma step_quiet:
  assumes "\<not> armed d" "inactiveSince d = 0 \<or> inactiveSince d - t0 \<le> lo"
    "lo \<le> op_time x - t0" "op_time x - t0 < TILT_REARM_MS"
  shows "\<not> fst (tilt_step d x) \<and> \<not> armed (snd (tilt_step d x))
         \<and> (inactiveSince (snd (tilt_step d x)) = 0
              \<or> inactiveSince (snd (tilt_step d x)) - t0 \<le> op_time x - t0)"
proof (cases x)
  case (Reset h)
  then show ?thesis by (simp add: reset_def)
next
  case (Poll h st)
  have e: "\<not> TILT_REARM_MS \<le> millis h - inactiveSince d" if "inactiveSince d \<noteq> 0"
  proof -
    have "inactiveSince d - t0 \<le> millis h - t0" using assms(2,3) that Poll by auto
    then show ?thesis using assms(4) Poll by (intro rearm_too_early[of _ t0]) simp_all
  qed
  have k: "inactiveSince d \<noteq> 0 \<Longrightarrow> inactiveSince d - t0 \<le> millis h - t0"
    using assms(2,3) Poll by auto
  show ?thesis using assms(1) e k Poll by (auto simp add: event_eq)
qed

lemma quiet_window:
  "\<not> armed d \<Longrightarrow> inactiveSince d = 0 \<or> inactiveSince d - t0 \<le> lo \<Longrightarrow> win t0 lo ops
   \<Longrightarrow> events_fired (run_tilt d ops) = 0"
proof (induction ops arbitrary: d lo)
  case Nil
  then show ?case by simp
next
  case (Cons x xs)
  have w: "lo \<le> op_time x - t0" "op_time x - t0 < TILT_REARM_MS" "win t0 (op_time x - t0) xs"
    using Cons.prems(3) by simp_all
  note q = step_quiet[OF Cons.prems(1,2) w(1,2)]
  have "events_fired (run_tilt (snd (tilt_step d x)) xs) = 0"
    using q w(3) by (intro Cons.IH) auto
  then show ?case using q by simp
qed

lemma fired_disarms:
  "fst (tilt_step d x) \<Longrightarrow> \<not> armed (snd (tilt_step d x)) \<and> inactiveSince (snd (tilt_step d x)) = 0"
  by (cases x) (auto simp add: event_eq split: if_splits)

lemma one_event_per_window:
  "win t0 lo ops \<Longrightarrow> events_fired (run_tilt d ops) \<le> 1"
proof (induction ops arbitrary: d lo)
  case Nil
  then show ?case by simp
next
  case (Cons x xs)
  have w: "win t0 (op_time x - t0) xs" using Cons.prems by simp
  show ?case
  proof (cases "fst (tilt_step d x)")
    case True
    have "events_fired (run_tilt (snd (tilt_step d x)) xs) = 0"
      using fired_disarms[OF True] w by (intro quiet_window) auto
    then show ?thesis using True by simp
  next
    case False
    then show ?thesis using Cons.IH[OF w] by simp
  qed
qed


lemma tilt_after_append: "tilt_after d (xs @ ys) = tilt_after (tilt_after d xs) ys"
  by (induction xs arbitrary: d) simp_all

lemma undisturbed_snoc:
  "undisturbed d (xs @ [x]) =
     (undisturbed d xs \<and> (\<exists>h st. x = Poll h st) \<and> \<not> accepted True x (tilt_after d xs))"
proof (induction xs arbitrary: d)
  case Nil
  then show ?case by (cases x) auto
next
  case (Cons y ys)
  then show ?case by (cases y) auto
qed

lemma inactive_from_inv:
  "inactiveSince d0 = 0 \<Longrightarrow> inactiveSince (tilt_after d0 ops) \<noteq> 0
   \<Longrightarrow> inactive_from d0 ops (inactiveSince (tilt_after d0 ops))"
proof (induction ops rule: rev_induct)
  case Nil
  then show ?case by simp
next
  case (snoc x xs)
  let ?d = "tilt_after d0 xs"
  have ta: "tilt_after d0 (xs @ [x]) = snd (tilt_step ?d x)" by (simp add: tilt_after_append)
  have nz: "inactiveSince (snd (tilt_step ?d x)) \<noteq> 0" using snoc.prems(2) ta by simp
  then obtain h st where P: "x = Poll h st" by (cases x) (auto simp add: reset_def)
  have na: "\<not> accepted True x ?d" using nz P by (auto simp add: event_eq)
  show ?case
  proof (cases "inactiveSince ?d = 0")
    case True
    have a: "accepted False x ?d" "inactiveSince (snd (tilt_step ?d x)) = op_time x"
      using nz P True by (auto simp add: event_eq split: if_splits)
    show ?thesis
      unfolding inactive_from_def ta
      apply (rule exI[of _ xs], rule exI[of _ x], rule exI[of _ "[]"])
      using a by simp
  next
    case False
    have keep: "inactiveSince (snd (tilt_step ?d x)) = inactiveSince ?d"
      using nz P False by (auto simp add: event_eq split: if_splits)
    from snoc.IH[OF snoc.prems(1) False] obtain pre y post where
      sp: "xs = pre @ y # post" "accepted False y (tilt_after d0 pre)"
          "op_time y = inactiveSince ?d" "undisturbed (tilt_after d0 (pre @ [y])) post"
      unfolding inactive_from_def by blast
    have r: "tilt_after (tilt_after d0 (pre @ [y])) post = ?d"
      using sp(1) by (simp add: tilt_after_append)
    have "undisturbed (tilt_after d0 (pre @ [y])) (post @ [x])"
      using sp(4) P na r by (simp add: undisturbed_snoc)
    moreover have "xs @ [x] = pre @ y # (post @ [x])" using sp(1) by simp
    ultimately show ?thesis
      unfolding inactive_from_def ta keep
      apply -
      apply (rule exI[of _ pre], rule exI[of _ y], rule exI[of _ "post @ [x]"])
      using sp(2,3) by simp
  qed
qed

lemma rearmed_inv:
  "\<not> armed d0 \<Longrightarrow> inactiveSince d0 = 0 \<Longrightarrow> armed (tilt_after d0 ops) \<Longrightarrow> rearmed d0 ops"
proof (induction ops rule: rev_induct)
  case Nil
  then show ?case by simp
next
  case (snoc x xs)
  let ?d = "tilt_after d0 xs"
  have ta: "tilt_after d0 (xs @ [x]) = snd (tilt_step ?d x)" by (simp add: tilt_after_append)
  have ar: "armed (snd (tilt_step ?d x))" using snoc.prems(3) ta by simp
  show ?case
  proof (cases "armed ?d")
    case True
    from snoc.IH[OF snoc.prems(1,2) True] obtain pre y post t where
      "xs = pre @ y # post" "accepted False y (tilt_after d0 pre)" "inactive_from d0 pre t"
      "TILT_REARM_MS \<le> op_time y - t"
      unfolding rearmed_def by blast
    moreover from this have "xs @ [x] = pre @ y # (post @ [x])" by simp
    ultimately show ?thesis
      unfolding rearmed_def
      apply -
      apply (rule exI[of _ pre], rule exI[of _ y], rule exI[of _ "post @ [x]"], rule exI[of _ t])
      by simp
  next
    case False
    then obtain h st where P: "x = Poll h st" using ar by (cases x) (auto simp add: reset_def)
    have a: "accepted False x ?d" "inactiveSince ?d \<noteq> 0"
      "TILT_REARM_MS \<le> op_time x - inactiveSince ?d"
      using ar False P by (auto simp add: event_eq split: if_splits)
    have "inactive_from d0 xs (inactiveSince ?d)"
      using inactive_from_inv[OF snoc.prems(2) a(2)] .
    then show ?thesis
      unfolding rearmed_def
      apply -
      apply (rule exI[of _ xs], rule exI[of _ x], rule exI[of _ "[]"],
             rule exI[of _ "inactiveSince ?d"])
      using a by simp
  qed
qed

lemma fired_armed: "fst (tilt_step d x) \<Longrightarrow> armed d"
  by (cases x) (auto simp add: event_eq split: if_splits)

lemma reset_eq:
  "reset h d = \<lparr>lastRawAct = rawActive h, changedAt = millis h, armed = False, inactiveSince = 0\<rparr>"
  by (simp add: reset_def)

lemma loop_tilt_reset:
  "state (loop h s) \<noteq> state s \<Longrightarrow>
   tilt (loop h s) = \<lparr>lastRawAct = rawActive h, changedAt = millis h, armed = False, inactiveSince = 0\<rparr>"
  by (cases "state s") (auto simp add: loop_def step_defs poll_fields reset_eq split: if_splits)

lemma setup_tilt:
  "tilt (setup_ino h p2) = \<lparr>lastRawAct = rawActive h, changedAt = millis h, armed = False, inactiveSince = 0\<rparr>"
  by (simp add: setup_ino_def Let_def enter_eq leds_eq emit_def globals_init_def reset_eq)

text \<open>
  C7. An event fires only from an armed detector on an accepted (stable) active reading,
  and firing disarms it and clears the inactivity timestamp. A disarmed detector is armed
  only by a poll that accepts an inactive reading at least 140 ms after a nonzero
  inactivity timestamp; an accepted active reading clears that timestamp. Over sequences
  of polls and resets: whatever the raw readings, a sequence whose clock offsets stay
  within 140 ms (so any sequence inside one debounce window of 5 or 14 ms) has at most
  one event, and none after an event; and from a disarmed detector with a clear
  timestamp (as left by an event or a reset) a later event needs, in between, a poll
  that accepted an inactive reading, then only polls without an accepted active reading,
  up to a poll that accepted an inactive reading at least 140 ms later.
\<close>

theorem tilt_fires_once:
  "(fst (event h st d) \<longrightarrow>
      armed d \<and> rawActive h \<and> stable h st d
      \<and> \<not> armed (snd (event h st d)) \<and> inactiveSince (snd (event h st d)) = 0)
   \<and> (\<not> armed d \<and> armed (snd (event h st d)) \<longrightarrow>
        \<not> rawActive h \<and> stable h st d \<and> inactiveSince d \<noteq> 0
        \<and> TILT_REARM_MS \<le> millis h - inactiveSince d)
   \<and> (stable h st d \<and> rawActive h \<longrightarrow> inactiveSince (snd (event h st d)) = 0)
   \<and> (win t0 lo ops \<longrightarrow> events_fired (run_tilt d ops) \<le> 1)
   \<and> (fst (tilt_step d x) \<and> win t0 lo ops \<longrightarrow>
        events_fired (run_tilt (snd (tilt_step d x)) ops) = 0)
   \<and> (\<not> armed d \<and> inactiveSince d = 0 \<and> fst (tilt_step (tilt_after d ops) x) \<longrightarrow>
        rearmed d ops)"
proof -
  have 1: "fst (event h st d) \<longrightarrow>
      armed d \<and> rawActive h \<and> stable h st d
      \<and> \<not> armed (snd (event h st d)) \<and> inactiveSince (snd (event h st d)) = 0"
    by (auto simp add: event_eq split: if_splits)
  have 2: "\<not> armed d \<and> armed (snd (event h st d)) \<longrightarrow>
        \<not> rawActive h \<and> stable h st d \<and> inactiveSince d \<noteq> 0
        \<and> TILT_REARM_MS \<le> millis h - inactiveSince d"
    by (auto simp add: event_eq split: if_splits)
  have 3: "stable h st d \<and> rawActive h \<longrightarrow> inactiveSince (snd (event h st d)) = 0"
    by (auto simp add: event_eq)
  have 4: "win t0 lo ops \<longrightarrow> events_fired (run_tilt d ops) \<le> 1"
    using one_event_per_window[of t0 lo ops d] by blast
  have 5: "fst (tilt_step d x) \<and> win t0 lo ops \<longrightarrow>
        events_fired (run_tilt (snd (tilt_step d x)) ops) = 0"
    using fired_disarms[of d x] quiet_window[of "snd (tilt_step d x)" t0 lo ops] by blast
  have 6: "\<not> armed d \<and> inactiveSince d = 0 \<and> fst (tilt_step (tilt_after d ops) x) \<longrightarrow>
        rearmed d ops"
    using fired_armed[of "tilt_after d ops" x] rearmed_inv[of d ops] by blast
  show ?thesis using 1 2 3 4 5 6 by blast
qed

theorem tilt_fires_once_witness:
  "\<not> armed (tilt boot_state) \<and> inactiveSince (tilt boot_state) = 0
   \<and> fst (tilt_step
            (tilt_after (tilt boot_state)
               [Poll (board 200 False True) IDLE, Poll (board 340 False True) IDLE,
                Poll (board 341 True True) IDLE])
            (Poll (board 346 True True) IDLE))
   \<and> rearmed (tilt boot_state)
        [Poll (board 200 False True) IDLE, Poll (board 340 False True) IDLE,
         Poll (board 341 True True) IDLE]
   \<and> win 341 0 [Poll (board 341 True True) IDLE, Poll (board 346 True True) IDLE,
                Poll (board 347 False True) IDLE, Poll (board 352 True True) IDLE]
   \<and> events_fired (run_tilt
          (tilt_after (tilt boot_state)
             [Poll (board 200 False True) IDLE, Poll (board 340 False True) IDLE])
          [Poll (board 341 True True) IDLE, Poll (board 346 True True) IDLE,
           Poll (board 347 False True) IDLE, Poll (board 352 True True) IDLE]) \<le> 1"
proof -
  have a: "\<not> armed (tilt boot_state) \<and> inactiveSince (tilt boot_state) = 0"
    by (simp add: eval_defs)
  have f: "fst (tilt_step
            (tilt_after (tilt boot_state)
               [Poll (board 200 False True) IDLE, Poll (board 340 False True) IDLE,
                Poll (board 341 True True) IDLE])
            (Poll (board 346 True True) IDLE))"
    by (simp add: eval_defs)
  have w: "win 341 0 [Poll (board 341 True True) IDLE, Poll (board 346 True True) IDLE,
                Poll (board 347 False True) IDLE, Poll (board 352 True True) IDLE]"
    by (simp add: board_def word_le_nat_alt word_less_nat_alt)
  show ?thesis
    using tilt_fires_once[where d="tilt boot_state"
        and ops="[Poll (board 200 False True) IDLE, Poll (board 340 False True) IDLE,
                Poll (board 341 True True) IDLE]"
        and x="Poll (board 346 True True) IDLE"]
      tilt_fires_once[where d="tilt_after (tilt boot_state)
             [Poll (board 200 False True) IDLE, Poll (board 340 False True) IDLE]"
        and ?t0.0=341 and lo=0
        and ops="[Poll (board 341 True True) IDLE, Poll (board 346 True True) IDLE,
           Poll (board 347 False True) IDLE, Poll (board 352 True True) IDLE]"]
      a f w
    by blast
qed

text \<open>
  C8. \<open>event\<close> uses a reading only when it is stable: equal to the last one observed
  and unchanged for 5 ms if the state passed in is Idle, for 14 ms otherwise; on any
  other reading it returns no event and only notes the reading and the time of a change,
  leaving \<open>armed\<close> and the inactivity timestamp alone. \<open>loop()\<close> passes the current
  state. \<open>enter\<close> resets the detector: disarmed, inactivity timestamp cleared, last
  observed reading set to the raw reading of the moment, change time set to the clock; so
  does every pass that changes the state, and so does \<open>setup()\<close>. After a reset the next
  poll never fires, no poll within 140 ms fires, and any later event is preceded by a
  re-arming observed after the reset.
\<close>

theorem tilt_debounce_reset:
  "stable h st d
     = (lastRawAct d = rawActive h
        \<and> (if st = IDLE then TILT_DB_IDLE_MS else TILT_DB_OTHER_MS) \<le> millis h - changedAt d)
   \<and> (\<not> stable h st d \<longrightarrow>
        event h st d
          = (False, d\<lparr>lastRawAct := rawActive h,
                       changedAt := (if rawActive h \<noteq> lastRawAct d then millis h
                                     else changedAt d)\<rparr>))
   \<and> (fst (event h st d) \<longrightarrow> stable h st d)
   \<and> tilt_event h s = fst (event h (state s) (tilt s))
   \<and> fst (poll h s) = tilt_event h s
   \<and> reset h d
       = \<lparr>lastRawAct = rawActive h, changedAt = millis h, armed = False, inactiveSince = 0\<rparr>
   \<and> tilt (enter h n m hz dur p s) = reset h (tilt s)
   \<and> (state (loop h s) \<noteq> state s \<longrightarrow>
        tilt (loop h s)
          = \<lparr>lastRawAct = rawActive h, changedAt = millis h, armed = False, inactiveSince = 0\<rparr>)
   \<and> tilt (setup_ino h p2)
       = \<lparr>lastRawAct = rawActive h, changedAt = millis h, armed = False, inactiveSince = 0\<rparr>
   \<and> \<not> fst (event h' st (reset h d))
   \<and> (win t0 lo ops \<longrightarrow> events_fired (run_tilt (reset h d) ops) = 0)
   \<and> (fst (tilt_step (tilt_after (reset h d) ops) x) \<longrightarrow> rearmed (reset h d) ops)"
proof -
  have 1: "stable h st d
     = (lastRawAct d = rawActive h
        \<and> (if st = IDLE then TILT_DB_IDLE_MS else TILT_DB_OTHER_MS) \<le> millis h - changedAt d)"
    by (simp add: stable_def needDb_of_def)
  have 2: "\<not> stable h st d \<longrightarrow>
        event h st d
          = (False, d\<lparr>lastRawAct := rawActive h,
                       changedAt := (if rawActive h \<noteq> lastRawAct d then millis h
                                     else changedAt d)\<rparr>)"
    by (simp add: event_eq)
  have 3: "fst (event h st d) \<longrightarrow> stable h st d"
    by (auto simp add: event_eq split: if_splits)
  have 4: "tilt_event h s = fst (event h (state s) (tilt s)) \<and> fst (poll h s) = tilt_event h s"
    by (simp add: tilt_event_def poll_fst)
  have 5: "tilt (enter h n m hz dur p s) = reset h (tilt s)"
    by (simp add: enter_eq)
  have 6: "\<not> fst (event h' st (reset h d))"
    by (auto simp add: event_eq reset_eq split: if_splits)
  have 7: "win t0 lo ops \<longrightarrow> events_fired (run_tilt (reset h d) ops) = 0"
    using quiet_window[of "reset h d" t0 lo ops] by (simp add: reset_eq)
  have 8: "fst (tilt_step (tilt_after (reset h d) ops) x) \<longrightarrow> rearmed (reset h d) ops"
    using fired_armed[of "tilt_after (reset h d) ops" x] rearmed_inv[of "reset h d" ops]
    by (auto simp add: reset_eq)
  show ?thesis
    using 1 2 3 4 5 6 7 8 reset_eq[of h d] loop_tilt_reset[of h s] setup_tilt[of h p2]
    by blast
qed

theorem tilt_debounce_reset_witness:
  "\<not> stable (board 345 True True) IDLE
       \<lparr>lastRawAct = True, changedAt = 341, armed = True, inactiveSince = 200\<rparr>
   \<and> event (board 345 True True) IDLE
       \<lparr>lastRawAct = True, changedAt = 341, armed = True, inactiveSince = 200\<rparr>
     = (False, \<lparr>lastRawAct = True, changedAt = 341, armed = True, inactiveSince = 200\<rparr>)
   \<and> state (loop (board 715 True True) (run boot_state to_armed_alert))
       \<noteq> state (run boot_state to_armed_alert)
   \<and> armed (tilt (run boot_state to_armed_alert))
   \<and> \<not> armed (tilt (loop (board 715 True True) (run boot_state to_armed_alert)))
   \<and> win 715 0 [Poll (board 800 True True) ANGRY]
   \<and> events_fired (run_tilt (reset (board 715 True True) (tilt (run boot_state to_armed_alert)))
        [Poll (board 800 True True) ANGRY]) = 0"
proof -
  let ?d = "\<lparr>lastRawAct = True, changedAt = 341, armed = True, inactiveSince = 200\<rparr>"
  let ?X = "run boot_state to_armed_alert"
  note T1 = tilt_debounce_reset[where h="board 345 True True" and st=IDLE and d="?d"]
  note T2 = tilt_debounce_reset[where h="board 715 True True" and s="?X"
        and d="tilt ?X" and ?t0.0=715 and lo=0 and ops="[Poll (board 800 True True) ANGRY]"]
  have a: "\<not> stable (board 345 True True) IDLE ?d"
    by (simp add: stable_def needDb_of_def board_def rawActive_def word_le_nat_alt)
  have b: "state (loop (board 715 True True) ?X) \<noteq> state ?X"
    by (simp add: eval_defs)
  have c: "armed (tilt ?X)"
    by (simp add: eval_defs)
  have w: "win 715 0 [Poll (board 800 True True) ANGRY]"
    by (simp add: board_def word_le_nat_alt word_less_nat_alt)
  have e: "event (board 345 True True) IDLE ?d
      = (False, ?d\<lparr>lastRawAct := rawActive (board 345 True True),
                   changedAt := (if rawActive (board 345 True True) \<noteq> lastRawAct ?d
                                 then millis (board 345 True True) else changedAt ?d)\<rparr>)"
    using T1 a by blast
  have e': "event (board 345 True True) IDLE ?d = (False, ?d)"
    unfolding e by (simp add: board_def rawActive_def)
  have t: "tilt (loop (board 715 True True) ?X)
      = \<lparr>lastRawAct = rawActive (board 715 True True), changedAt = millis (board 715 True True),
         armed = False, inactiveSince = 0\<rparr>"
    using T2 b by blast
  have q: "events_fired (run_tilt (reset (board 715 True True) (tilt ?X))
        [Poll (board 800 True True) ANGRY]) = 0"
    using T2 w by blast
  show ?thesis using a e' b c w q by (simp add: t)
qed


end
